theory Spec2Isabelle
  imports Main "HOL-Library.Word"
begin

unbundle bit_operations_syntax

section \<open>Machine integers and failures\<close>

type_synonym u8 = "8 word"
type_synonym u16 = "16 word"
type_synonym u32 = "32 word"
type_synonym u64 = "64 word"

text \<open>
  Every \<^verbatim>\<open>MONAD_ASSERT\<close> and \<^verbatim>\<open>MONAD_DEBUG_ASSERT\<close> that the development reaches
  is one constructor: a failed assertion aborts the process, so a function that can
  assert returns \<open>error + 'a\<close>. \<open>Out_of_bounds\<close> stands for an access outside a buffer
  or an allocation, which is undefined behaviour in C++.
\<close>

datatype error =
    Assert_count_le_max_count
  | Assert_shift_le_max_shift
  | Assert_to_pages_ge_pages
  | Assert_branch_in_mask
  | Assert_value_len_le_max
  | Assert_data_len_le_max
  | Assert_disk_size_le_max_bytes
  | Assert_disk_size_range
  | Assert_alloc_size_eq_mem_size
  | Debug_assert_bytes_le_max_size
  | Out_of_bounds

section \<open>Page-count encoding: \<^verbatim>\<open>node_disk_pages_spare_15\<close>\<close>

text \<open>
  \<^verbatim>\<open>struct spare_type_15 { uint16_t count : 10; uint16_t shift : 5; uint16_t reserved0_ : 1; }\<close>.
  Each bit-field is a word of its own width, so that a store truncates as in C++.
\<close>

record spare_type_15 =
  count :: "10 word"
  shift :: "5 word"
  reserved0_ :: "1 word"

definition count_bits :: nat where
  "count_bits = 10"

text \<open>\<^verbatim>\<open>static constexpr size_t max_count = (1UL << 10) - 1\<close>\<close>

definition max_count :: u64 where
  "max_count = push_bit 10 1 - 1"

text \<open>\<^verbatim>\<open>static constexpr uint16_t max_shift = (1U << 5) - 1\<close>\<close>

definition max_shift :: u16 where
  "max_shift = push_bit 5 1 - 1"

text \<open>
  \<^verbatim>\<open>std::countl_zero\<close> on \<^verbatim>\<open>unsigned\<close>: the number of consecutive zero bits
  below position \<open>i\<close>, counted downwards from bit \<open>i - 1\<close>.
\<close>

fun clz_from :: "nat \<Rightarrow> u32 \<Rightarrow> nat" where
  "clz_from 0 x = 0"
| "clz_from (Suc i) x = (if bit x i then 0 else Suc (clz_from i x))"

definition countl_zero :: "u32 \<Rightarrow> nat" where
  "countl_zero x = clz_from 32 x"

text \<open>
  \<^verbatim>\<open>to_pages\<close>: \<^verbatim>\<open>static_cast<unsigned>(value.spare.count) << value.spare.shift\<close>,
  a 32-bit shift, so bits pushed beyond bit 31 are lost.
\<close>

definition to_pages :: "spare_type_15 \<Rightarrow> u32" where
  "to_pages v = push_bit (unat (shift v)) (ucast (count v) :: u32)"

text \<open>
  The constructor from a page count (lines 67 to 83). \<open>shift0\<close>, \<open>count0\<close> are the
  locals after their initialisation, \<open>shift1\<close>, \<open>count1\<close> after the conditional
  halving. \<open>count\<close> is an \<^verbatim>\<open>unsigned\<close>; it is compared and masked against the
  \<^verbatim>\<open>size_t\<close> constant \<open>max_count\<close> after the usual conversion to 64 bits.
\<close>

definition node_disk_pages_spare_15 :: "u32 \<Rightarrow> error + spare_type_15" where
  "node_disk_pages_spare_15 pages =
    (let exp = drop_bit count_bits pages;
         shift0 = (word_of_nat (32 - countl_zero exp) :: u16);
         count0 = drop_bit (unat shift0) pages
                  + (if pages AND (push_bit (unat shift0) 1 - 1) \<noteq> 0 then 1 else 0);
         halve = (max_count < ucast count0);
         count1 = (if halve then drop_bit 1 count0 else count0);
         shift1 = (if halve then shift0 + 1 else shift0)
     in if \<not> (ucast count1 :: u64) \<le> max_count then Inl Assert_count_le_max_count
        else if \<not> shift1 \<le> max_shift then Inl Assert_shift_le_max_shift
        else
          let v = \<lparr>count = ucast ((ucast count1 :: u64) AND max_count),
                   shift = ucast (shift1 AND max_shift),
                   reserved0_ = 0\<rparr>
          in if \<not> pages \<le> to_pages v then Inl Assert_to_pages_ge_pages else Inr v)"

section \<open>Child iteration: \<^verbatim>\<open>NodeChildrenRange\<close>\<close>

text \<open>
  \<^verbatim>\<open>std::popcount\<close>: the number of set bits of a word.
\<close>

definition popcount :: "'a::len word \<Rightarrow> nat" where
  "popcount w = length (filter (bit w) [0..<LENGTH('a)])"

text \<open>
  \<^verbatim>\<open>__builtin_ctzl\<close> on a 64-bit \<^verbatim>\<open>unsigned long\<close>: the number of zero bits below the
  lowest set bit. The builtin is undefined at 0, where this function gives 64; the loop
  below never evaluates it there.
\<close>

definition builtin_ctzl :: "u64 \<Rightarrow> nat" where
  "builtin_ctzl x = length (takeWhile (\<lambda>i. \<not> bit x i) [0..<64])"

text \<open>
  The iterator of lines 496 to 531: the dense index \<^verbatim>\<open>index_\<close> and the mask
  \<^verbatim>\<open>mask_\<close> of the branches still to visit (the fields are \<open>it_index\<close> and \<open>it_mask\<close>
  here). \<open>iterator_deref\<close> is \<^verbatim>\<open>operator*\<close>, with the value type
  \<^verbatim>\<open>std::pair<uint8_t, unsigned char>\<close>; \<open>iterator_incr\<close> is \<^verbatim>\<open>operator++\<close>;
  \<open>iterator_neq_sentinel\<close> is \<^verbatim>\<open>operator!=\<close> against the sentinel.
\<close>

record iterator =
  it_index :: u8
  it_mask :: u16

definition iterator_deref :: "iterator \<Rightarrow> u8 \<times> u8" where
  "iterator_deref it = (it_index it, word_of_nat (builtin_ctzl (ucast (it_mask it))))"

definition iterator_incr :: "iterator \<Rightarrow> iterator" where
  "iterator_incr it = \<lparr>it_index = it_index it + 1, it_mask = it_mask it AND (it_mask it - 1)\<rparr>"

definition iterator_neq_sentinel :: "iterator \<Rightarrow> bool" where
  "iterator_neq_sentinel it = (it_mask it \<noteq> 0)"

text \<open>
  The range-based \<^verbatim>\<open>for\<close> loop of the usage comment (line 488),
  \<^verbatim>\<open>for (auto const [index, branch] : NodeChildrenRange(node.mask))\<close>: the list of the
  pairs the loop body sees, in order. The loop ends because clearing the lowest set bit
  makes the mask smaller.
\<close>

function range_for :: "iterator \<Rightarrow> (u8 \<times> u8) list" where
  "range_for it =
     (if iterator_neq_sentinel it then iterator_deref it # range_for (iterator_incr it) else [])"
  by pat_completeness auto
termination
proof (relation "measure (\<lambda>it. unat (it_mask it))")
  show "wf (measure (\<lambda>it. unat (it_mask it)))" by simp
next
  fix it :: iterator
  assume "iterator_neq_sentinel it"
  then have nz: "it_mask it \<noteq> 0" by (simp add: iterator_neq_sentinel_def)
  have "it_mask it AND (it_mask it - 1) \<le> it_mask it - 1" by (rule word_and_le1)
  also have "it_mask it - 1 < it_mask it"
    using nz by (simp add: word_less_nat_alt unat_minus_one unat_gt_0)
  finally show "(iterator_incr it, it) \<in> measure (\<lambda>it. unat (it_mask it))"
    by (simp add: iterator_incr_def word_less_nat_alt)
qed

text \<open>\<^verbatim>\<open>NodeChildrenRange(mask).begin()\<close> starts at index 0 with the whole mask.\<close>

definition NodeChildrenRange :: "u16 \<Rightarrow> (u8 \<times> u8) list" where
  "NodeChildrenRange m = range_for \<lparr>it_index = 0, it_mask = m\<rparr>"

text \<open>
  Modelled from the spec: \<^verbatim>\<open>NodeBase::to_child_index\<close> is declared in \<^verbatim>\<open>node.hpp\<close>
  (line 212) but its body is not among the sources. The spec (3.3) gives
  \<^verbatim>\<open>to_child_index(branch) = popcount(mask & ((1 << branch) - 1))\<close> for branches 0..15
  and (7) makes a call for a branch that is not set in the mask a fatal error.
\<close>

definition to_child_index :: "u16 \<Rightarrow> u32 \<Rightarrow> error + u32" where
  "to_child_index m branch =
     (if \<not> bit m (unat branch) then Inl Assert_branch_in_mask
      else Inr (word_of_nat (popcount ((ucast m :: u32) AND (push_bit (unat branch) 1 - 1)))))"

section \<open>Node memory image\<close>

text \<open>
  A node is one contiguous allocation: the 16-byte \<^verbatim>\<open>NodeBase\<close> header followed by the
  trailing regions the header describes. The model of a node is the list of the bytes of
  its allocation, byte 0 being the first byte of \<^verbatim>\<open>mask\<close>. A heap is the list of the
  live allocations; the address of a node is its position in the heap, so that two nodes
  at different addresses never share bytes.
\<close>

type_synonym byte = u8
type_synonym node = "byte list"
type_synonym heap = "node list"

subsection \<open>Constants\<close>

text \<open>
  \<^verbatim>\<open>static_assert(sizeof(Node) == 16)\<close> (line 336), and the constants of lines 148 to
  154.
\<close>

definition sizeof_Node :: nat where
  "sizeof_Node = 16"

definition max_number_of_children :: nat where
  "max_number_of_children = 16"

definition max_data_len :: nat where
  "max_data_len = 2 ^ 6 - 1"

definition max_disk_size :: nat where
  "max_disk_size = 256 * 1024 * 1024"

definition disk_size_bytes :: nat where
  "disk_size_bytes = 4"

text \<open>
  Modelled from the spec: \<^verbatim>\<open>KECCAK256_SIZE\<close> comes from \<^verbatim>\<open>keccak.h\<close>, which is not among
  the sources; the spec (3.4) gives 32.
\<close>

definition KECCAK256_SIZE :: nat where
  "KECCAK256_SIZE = 32"

definition max_size :: nat where
  "max_size = max_disk_size + max_number_of_children * KECCAK256_SIZE"

text \<open>
  Modelled from the spec: \<^verbatim>\<open>compact_virtual_chunk_offset_t\<close> and \<^verbatim>\<open>chunk_offset_t\<close> are
  declared in headers that are not among the sources. The spec (3.1) gives 5 bytes for the
  compact offset; it leaves \<^verbatim>\<open>sizeof(chunk_offset_t)\<close> open, and 8 bytes (one 64-bit word
  of chunk id, offset and 16 spare bits) are taken here. Pointers are 8 bytes, the sources
  being written for a 64-bit target. The statements below keep both sizes by name.
\<close>

definition sizeof_compact_virtual_chunk_offset_t :: nat where
  "sizeof_compact_virtual_chunk_offset_t = 5"

definition sizeof_chunk_offset_t :: nat where
  "sizeof_chunk_offset_t = 8"

definition sizeof_pointer :: nat where
  "sizeof_pointer = 8"

subsection \<open>Little-endian loads and stores\<close>

text \<open>
  Modelled from the spec: \<^verbatim>\<open>unaligned_load\<close> comes from \<^verbatim>\<open>unaligned.hpp\<close>, which is
  not among the sources; by the spec (6) integer fields are little-endian. \<open>le_word\<close>
  decodes a byte sequence, \<open>le_bytes k\<close> encodes the low \<open>k\<close> bytes of a word. A load
  that leaves the buffer is undefined behaviour in C++ and \<open>Out_of_bounds\<close> here.
\<close>

fun le_word :: "byte list \<Rightarrow> 'a::len word" where
  "le_word [] = 0"
| "le_word (b # bs) = ucast b OR push_bit 8 (le_word bs)"

definition le_bytes :: "nat \<Rightarrow> 'a::len word \<Rightarrow> byte list" where
  "le_bytes k w = map (\<lambda>i. ucast (drop_bit (8 * i) w)) [0..<k]"

definition unaligned_load_u32 :: "byte list \<Rightarrow> error + u32" where
  "unaligned_load_u32 p = (if length p < 4 then Inl Out_of_bounds else Inr (le_word (take 4 p)))"

definition unaligned_load_u16 :: "byte list \<Rightarrow> error + u16" where
  "unaligned_load_u16 p = (if length p < 2 then Inl Out_of_bounds else Inr (le_word (take 2 p)))"

subsection \<open>Header fields\<close>

text \<open>
  The members of \<^verbatim>\<open>NodeBase\<close> (lines 157 to 179) at the offsets the C++ layout rules
  give them: \<^verbatim>\<open>mask\<close> at 0, \<^verbatim>\<open>bitpacked\<close> at 2, \<^verbatim>\<open>path_nibble_index_end\<close> at 3,
  \<^verbatim>\<open>value_len\<close> at 4 and \<^verbatim>\<open>version\<close> at 8. The bit-fields of \<^verbatim>\<open>bitpacked\<close> are
  allocated from the least significant bit: \<^verbatim>\<open>has_value\<close> is bit 0,
  \<^verbatim>\<open>path_nibble_index_start\<close> bit 1 and \<^verbatim>\<open>data_len\<close> bits 2 to 7. (The field
  \<^verbatim>\<open>mask\<close> is \<open>node_mask\<close> here.)
\<close>

definition node_mask :: "node \<Rightarrow> u16" where
  "node_mask N = le_word (take 2 N)"

definition bitpacked :: "node \<Rightarrow> u8" where
  "bitpacked N = le_word (take 1 (drop 2 N))"

definition has_value :: "node \<Rightarrow> bool" where
  "has_value N = bit (bitpacked N) 0"

definition path_nibble_index_start :: "node \<Rightarrow> bool" where
  "path_nibble_index_start N = bit (bitpacked N) 1"

definition data_len :: "node \<Rightarrow> u8" where
  "data_len N = drop_bit 2 (bitpacked N)"

definition path_nibble_index_end :: "node \<Rightarrow> u8" where
  "path_nibble_index_end N = le_word (take 1 (drop 3 N))"

definition value_len :: "node \<Rightarrow> u32" where
  "value_len N = le_word (take 4 (drop 4 N))"

definition version :: "node \<Rightarrow> u64" where
  "version N = le_word (take 8 (drop 8 N))"

subsection \<open>Layout of the trailing regions\<close>

text \<open>
  \<^verbatim>\<open>number_of_children()\<close> equals \<^verbatim>\<open>std::popcount(mask)\<close> (comment of lines 188 and
  189).
\<close>

definition number_of_children :: "node \<Rightarrow> nat" where
  "number_of_children N = popcount (node_mask N)"

text \<open>
  Modelled from the spec: the accessors \<^verbatim>\<open>path_bytes\<close>, \<^verbatim>\<open>child_data\<close>,
  \<^verbatim>\<open>next_data\<close>, \<^verbatim>\<open>get_mem_size\<close> and \<^verbatim>\<open>get_disk_size\<close> are declared in
  \<^verbatim>\<open>node.hpp\<close> but their bodies are not among the sources. They follow the table of
  spec 3.3: after the header come five arrays with one entry per child (2 bytes of child
  data offset, two compact offsets, 8 bytes of minimum version and one
  \<^verbatim>\<open>chunk_offset_t\<close>), then \<^verbatim>\<open>path_bytes\<close> bytes of path, \<^verbatim>\<open>value_len\<close> bytes of value,
  \<^verbatim>\<open>data_len\<close> bytes of inline data, the children's data, and last the \<^verbatim>\<open>next[]\<close>
  pointers.

  \<^item> \<open>path_bytes\<close> is 0 when \<^verbatim>\<open>path_nibble_index_end\<close> is 0, and otherwise
    \<open>ceil(end / 2) - floor(start / 2)\<close>.
  \<^item> \<open>child_data\<close> is the offset of the children's data, the sum of the sizes of the
    regions before it.
  \<^item> \<open>child_data_total\<close> is the summed length of the children's data. The spec has it
    recovered from the total node size minus the other regions; a node without
    children has none.
  \<^item> \<open>next_data\<close> is the offset of the \<^verbatim>\<open>next[]\<close> region.
  \<^item> \<open>get_mem_size\<close> counts all regions, \<open>get_disk_size\<close> the regions that are stored on
    disk, that is all but \<^verbatim>\<open>next[]\<close>. Both return 32-bit values in the source.
\<close>

definition path_bytes :: "node \<Rightarrow> nat" where
  "path_bytes N =
     (if path_nibble_index_end N = 0 then 0
      else (unat (path_nibble_index_end N) + 1) div 2
           - (if path_nibble_index_start N then 1 else 0) div 2)"

definition child_arrays_size :: "node \<Rightarrow> nat" where
  "child_arrays_size N =
     number_of_children N
       * (2 + sizeof_compact_virtual_chunk_offset_t + sizeof_compact_virtual_chunk_offset_t
            + 8 + sizeof_chunk_offset_t)"

definition child_data :: "node \<Rightarrow> nat" where
  "child_data N =
     sizeof_Node + child_arrays_size N + path_bytes N + unat (value_len N) + unat (data_len N)"

definition child_data_total :: "node \<Rightarrow> nat" where
  "child_data_total N =
     (if number_of_children N = 0 then 0
      else length N - number_of_children N * sizeof_pointer - child_data N)"

definition next_data :: "node \<Rightarrow> nat" where
  "next_data N = child_data N + child_data_total N"

definition get_mem_size :: "node \<Rightarrow> u32" where
  "get_mem_size N = word_of_nat (next_data N + number_of_children N * sizeof_pointer)"

definition get_disk_size :: "node \<Rightarrow> u32" where
  "get_disk_size N = word_of_nat (next_data N)"

text \<open>
  A well-formed node: its allocation holds the header, is no larger than \<open>max_size\<close>,
  and is exactly as long as the regions its header describes.
\<close>

definition valid_node :: "node \<Rightarrow> bool" where
  "valid_node N =
     (sizeof_Node \<le> length N \<and> length N \<le> max_size
      \<and> next_data N + number_of_children N * sizeof_pointer = length N)"

subsection \<open>Node sizes\<close>

text \<open>
  \<^verbatim>\<open>calculate_node_size\<close> (lines 397 to 409), in \<^verbatim>\<open>size_t\<close> arithmetic, and
  \<^verbatim>\<open>MAX_VALUE_LEN_OF_LEAF\<close> (lines 415 to 419).
\<close>

definition calculate_node_size :: "u64 \<Rightarrow> u64 \<Rightarrow> u64 \<Rightarrow> u64 \<Rightarrow> u64 \<Rightarrow> u64" where
  "calculate_node_size num_children total_child_data_size value_size path_size data_size =
     word_of_nat sizeof_Node
       + (2 + word_of_nat sizeof_compact_virtual_chunk_offset_t * 2 + 8
            + word_of_nat sizeof_chunk_offset_t + word_of_nat sizeof_pointer)
         * num_children
       + total_child_data_size + value_size + path_size + data_size"

definition MAX_VALUE_LEN_OF_LEAF :: u64 where
  "MAX_VALUE_LEN_OF_LEAF =
     word_of_nat max_disk_size
       - calculate_node_size 0 0 0 (word_of_nat KECCAK256_SIZE) (word_of_nat KECCAK256_SIZE)"

text \<open>
  Modelled from the spec: \<^verbatim>\<open>make_node\<close> is declared (lines 425 to 427) but its body is
  not among the sources. Only its size checks are modelled: by spec 7 a value longer than
  \<^verbatim>\<open>MAX_VALUE_LEN_OF_LEAF\<close>, inline data longer than 63 bytes and an allocation larger
  than \<^verbatim>\<open>max_size\<close> are fatal; by spec 4.3 the node is allocated with
  \<^verbatim>\<open>calculate_node_size\<close> bytes. The result is the allocation size.
\<close>

definition make_node_size :: "u16 \<Rightarrow> u64 \<Rightarrow> u64 \<Rightarrow> u64 option \<Rightarrow> u64 \<Rightarrow> error + u64" where
  "make_node_size m total_child_data_size path_size val data_size =
     (let value_size = (case val of None \<Rightarrow> 0 | Some n \<Rightarrow> n) in
      if MAX_VALUE_LEN_OF_LEAF < value_size then Inl Assert_value_len_le_max
      else if word_of_nat max_data_len < data_size then Inl Assert_data_len_le_max
      else
        let bytes = calculate_node_size (word_of_nat (popcount m)) total_child_data_size
                      value_size path_size data_size
        in if word_of_nat max_size < bytes then Inl Debug_assert_bytes_le_max_size
           else Inr bytes)"

subsection \<open>Allocation and raw memory\<close>

text \<open>
  \<^verbatim>\<open>Node::make\<close> and \<^verbatim>\<open>CacheNode::make\<close> (lines 307 to 316 and 351 to 360): the debug
  assertion on the size, then the allocation. The allocator is not among the sources;
  by the spec (6) it delivers a buffer of exactly the requested size. The constructor
  sets the 16 bytes of the header to zero (the default member initialisers of lines 157
  to 179) and nothing writes the bytes after the header: they hold whatever the memory
  held before, which is the parameter \<open>uninit\<close>, a byte for every offset. An
  allocation that cannot hold the header is undefined behaviour in C++ and
  \<open>Out_of_bounds\<close> here. The result is the new heap and the address of the new node.
\<close>

definition make :: "(nat \<Rightarrow> byte) \<Rightarrow> heap \<Rightarrow> nat \<Rightarrow> error + heap \<times> nat" where
  "make uninit h bytes =
     (if \<not> bytes \<le> max_size then Inl Debug_assert_bytes_le_max_size
      else if bytes < sizeof_Node then Inl Out_of_bounds
      else Inr (h @ [replicate sizeof_Node 0 @ map uninit [sizeof_Node..<bytes]], length h))"

text \<open>
  \<^verbatim>\<open>std::copy_n(first, count, result)\<close> with \<open>result\<close> the first byte of the node at
  address \<open>q\<close>, and \<^verbatim>\<open>std::memset\<close> on the bytes of the node at address \<open>q\<close> starting
  at offset \<open>off\<close>. An access outside the source or the allocation is \<open>Out_of_bounds\<close>; a
  \<^verbatim>\<open>memset\<close> of no bytes touches nothing.
\<close>

definition copy_n :: "byte list \<Rightarrow> nat \<Rightarrow> heap \<Rightarrow> nat \<Rightarrow> error + heap" where
  "copy_n first cnt h q =
     (if q < length h \<and> cnt \<le> length first \<and> cnt \<le> length (h ! q)
      then Inr (h[q := take cnt first @ drop cnt (h ! q)])
      else Inl Out_of_bounds)"

definition memset :: "heap \<Rightarrow> nat \<Rightarrow> nat \<Rightarrow> byte \<Rightarrow> nat \<Rightarrow> error + heap" where
  "memset h q off v len =
     (if len = 0 then Inr h
      else if q < length h \<and> off + len \<le> length (h ! q)
      then Inr (h[q := take off (h ! q) @ replicate len v @ drop (off + len) (h ! q)])
      else Inl Out_of_bounds)"

text \<open>A store of one byte into the node at address \<open>q\<close>, for the frame properties.\<close>

definition store_byte :: "heap \<Rightarrow> nat \<Rightarrow> nat \<Rightarrow> byte \<Rightarrow> heap" where
  "store_byte h q off v = h[q := (h ! q)[off := v]]"

subsection \<open>Serialization\<close>

text \<open>
  Modelled from the spec: \<^verbatim>\<open>serialize_node_to_buffer\<close> is declared (lines 439 to 441) but
  its body is not among the sources. By spec 4.4 the on-disk representation is the 32-bit
  \<^verbatim>\<open>disk_size\<close> prefix followed by the first \<open>disk_size - 4\<close> bytes of the node, and the
  call writes \<open>bytes_to_write\<close> bytes of it, starting at its byte \<open>offset\<close>. The result
  is the bytes written at \<^verbatim>\<open>write_pos\<close>.
\<close>

definition serialize_node_to_buffer :: "nat \<Rightarrow> node \<Rightarrow> u32 \<Rightarrow> nat \<Rightarrow> byte list" where
  "serialize_node_to_buffer bytes_to_write N disk_size offset =
     take bytes_to_write
       (drop offset (le_bytes 4 disk_size @ take (unat disk_size - disk_size_bytes) N))"

text \<open>
  \<^verbatim>\<open>deserialize_node_from_buffer\<close> (lines 443 to 470). \<open>read_pos\<close> is the buffer from
  the pointer on and \<open>uninit\<close> the prior content of the memory that \<^verbatim>\<open>make\<close>
  allocates. The prefetch loop only issues hints and is left out. \<open>alloc_size\<close> is
  computed in \<^verbatim>\<open>size_t\<close> and cast to 32 bits; the count of \<^verbatim>\<open>copy_n\<close> is a 32-bit
  difference.
\<close>

definition deserialize_node_from_buffer ::
  "(nat \<Rightarrow> byte) \<Rightarrow> heap \<Rightarrow> byte list \<Rightarrow> nat \<Rightarrow> error + heap \<times> nat" where
  "deserialize_node_from_buffer uninit h read_pos max_bytes =
     (case unaligned_load_u32 read_pos of
        Inl e \<Rightarrow> Inl e
      | Inr disk_size \<Rightarrow>
          if \<not> unat disk_size \<le> max_bytes then Inl Assert_disk_size_le_max_bytes
          else if \<not> (0 < disk_size \<and> unat disk_size \<le> max_disk_size)
            then Inl Assert_disk_size_range
          else
            let read_pos1 = drop disk_size_bytes read_pos in
            case unaligned_load_u16 read_pos1 of
              Inl e \<Rightarrow> Inl e
            | Inr m \<Rightarrow>
                let n = (word_of_nat (popcount m) :: u32);
                    alloc_size = (ucast ((ucast disk_size :: u64)
                                    + ucast n * word_of_nat sizeof_pointer
                                    - word_of_nat disk_size_bytes) :: u32)
                in case make uninit h (unat alloc_size) of
                     Inl e \<Rightarrow> Inl e
                   | Inr (h0, node) \<Rightarrow>
                       (case copy_n read_pos1 (unat (disk_size - word_of_nat disk_size_bytes))
                               h0 node of
                          Inl e \<Rightarrow> Inl e
                        | Inr h1 \<Rightarrow>
                            (case memset h1 node (next_data (h1 ! node)) 0
                                    (unat n * sizeof_pointer) of
                               Inl e \<Rightarrow> Inl e
                             | Inr h2 \<Rightarrow>
                                 if alloc_size \<noteq> get_mem_size (h2 ! node)
                                 then Inl Assert_alloc_size_eq_mem_size
                                 else Inr (h2, node))))"

text \<open>
  \<^verbatim>\<open>copy_node\<close> (lines 472 to 483); \<open>node\<close> is the address of the node to copy and
  \<open>uninit\<close> the prior content of the memory that \<^verbatim>\<open>make\<close> allocates. A pointer to no
  live node is \<open>Out_of_bounds\<close>.
\<close>

definition copy_node :: "(nat \<Rightarrow> byte) \<Rightarrow> heap \<Rightarrow> nat \<Rightarrow> error + heap \<times> nat" where
  "copy_node uninit h node =
     (if \<not> node < length h then Inl Out_of_bounds
      else
        let alloc_size = get_mem_size (h ! node) in
        case make uninit h (unat alloc_size) of
          Inl e \<Rightarrow> Inl e
        | Inr (h0, node_copy) \<Rightarrow>
            (case copy_n (h0 ! node) (unat alloc_size) h0 node_copy of
               Inl e \<Rightarrow> Inl e
             | Inr h1 \<Rightarrow>
                 let next_size = number_of_children (h1 ! node) * sizeof_pointer in
                 (case memset h1 node_copy (next_data (h1 ! node_copy)) 0 next_size of
                    Inl e \<Rightarrow> Inl e
                  | Inr h2 \<Rightarrow> Inr (h2, node_copy))))"

section \<open>Sample nodes\<close>

text \<open>
  The extension node of the scenario S2 of the spec: one child at branch 8, no value, a
  path of one nibble (start 1, end 2), version 10, 28 bytes of per-child arrays, one path
  byte, 32 bytes of child data and one 8-byte \<^verbatim>\<open>next\<close> pointer, here not null.
\<close>

definition extension_node :: node where
  "extension_node = [0x00, 0x01, 0x02, 0x02, 0, 0, 0, 0, 10, 0, 0, 0, 0, 0, 0, 0]
          @ replicate 28 0 @ [0xA0] @ replicate 32 7 @ replicate 8 9"

text \<open>
  A leaf with a value of \<^verbatim>\<open>MAX_VALUE_LEN_OF_LEAF = 0x0FFFFFB0\<close> bytes, a path of 64
  nibbles (32 bytes) and \<open>dl\<close> bytes of inline data.
\<close>

definition max_leaf :: "byte \<Rightarrow> node" where
  "max_leaf dl = [0, 0, 1 OR push_bit 2 dl, 64, 0xB0, 0xFF, 0xFF, 0x0F, 0, 0, 0, 0, 0, 0, 0, 0]
       @ replicate 32 0 @ replicate 268435376 0 @ replicate (unat dl) 0"

text \<open>
  The leaf of the scenario S1 of the spec as it lies on disk: the prefix 27, then the
  header (no children, a value of 5 bytes, a path of 4 nibbles, version 7), 2 path bytes
  and the value \<^verbatim>\<open>hello\<close>. \<open>truncated_buffer\<close> is the same header with the prefix 20, so
  that the body ends after the header.
\<close>

definition leaf_buffer :: "byte list" where
  "leaf_buffer = [27, 0, 0, 0, 0, 0, 1, 4, 5, 0, 0, 0, 7, 0, 0, 0, 0, 0, 0, 0,
                  0x12, 0x34, 104, 101, 108, 108, 111]"

definition truncated_buffer :: "byte list" where
  "truncated_buffer = [20, 0, 0, 0, 0, 0, 1, 4, 5, 0, 0, 0, 7, 0, 0, 0, 0, 0, 0, 0]"

text \<open>
  Memory that was used before: every byte of it holds \<open>0xAA\<close>. The sample runs allocate
  from it.
\<close>

definition stale_memory :: "nat \<Rightarrow> byte" where
  "stale_memory off = 0xAA"

section \<open>Proofs: page-count encoding\<close>

lemma low_bits_nonzero_iff: "((pages :: u32) AND (push_bit s 1 - 1) \<noteq> 0) = (unat pages mod 2 ^ s \<noteq> 0)"
proof -
  have "pages AND (push_bit s 1 - 1) = take_bit s pages"
    by (simp add: take_bit_eq_mask mask_eq_exp_minus_1)
  moreover have "unat (take_bit s pages) = unat pages mod 2 ^ s"
    using unsigned_take_bit_eq [of s pages, where ?'a = nat] take_bit_eq_mod [of s "unat pages"]
    by simp
  ultimately show ?thesis
    by (metis unat_eq_0)
qed

lemma unat_u32_lt: "unat (w :: u32) < 4294967296"
  using unsigned_less [of w, where ?'a = nat] by simp

lemma unat_ucast_u32_u64: "unat (ucast (w :: u32) :: u64) = unat w"
proof -
  have "unat w < 2 ^ 64" using unat_u32_lt [of w] by simp
  then show ?thesis by (simp add: unsigned_ucast_eq take_bit_nat_eq_self)
qed

lemma max_count_less_iff: "(max_count < (ucast (w :: u32) :: u64)) = (1023 < unat w)"
  by (simp add: word_less_nat_alt max_count_def unat_ucast_u32_u64)

lemma le_max_count_iff: "((ucast (w :: u32) :: u64) \<le> max_count) = (unat w \<le> 1023)"
  by (simp add: word_le_nat_alt max_count_def unat_ucast_u32_u64)

lemma unat_count_field: "unat (w :: u32) \<le> 1023 \<Longrightarrow> unat (ucast ((ucast w :: u64) AND max_count) :: 10 word) = unat w"
proof -
  assume a: "unat w \<le> 1023"
  have m: "max_count = mask 10" by (simp add: max_count_def mask_eq_exp_minus_1)
  have "unat (ucast ((ucast w :: u64) AND max_count) :: 10 word)
        = take_bit 10 (take_bit 10 (take_bit 64 (unat w)))"
    unfolding m by (simp only: unsigned_ucast_eq unsigned_take_bit_eq flip: take_bit_eq_mask) simp
  also have "\<dots> = unat w" using a by (simp add: take_bit_nat_eq_self)
  finally show ?thesis .
qed

lemma unat_shift_field: "unat (w :: u16) \<le> 31 \<Longrightarrow> unat (ucast (w AND max_shift) :: 5 word) = unat w"
proof -
  assume a: "unat w \<le> 31"
  have m: "max_shift = mask 5" by (simp add: max_shift_def mask_eq_exp_minus_1)
  have "unat (ucast (w AND max_shift) :: 5 word) = take_bit 5 (take_bit 5 (unat w))"
    unfolding m by (simp only: unsigned_ucast_eq unsigned_take_bit_eq flip: take_bit_eq_mask) simp
  also have "\<dots> = unat w" using a by (simp add: take_bit_nat_eq_self)
  finally show ?thesis .
qed

lemma unat_push_bit_count: "unat (push_bit n (ucast (c :: 10 word) :: u32)) = (unat c * 2 ^ n) mod 2 ^ 32"
proof -
  have "unat c < 2 ^ 10" using unsigned_less [of c, where ?'a = nat] by simp
  then have "unat c < 2 ^ 32" by simp
  then have "unat (ucast c :: u32) = unat c"
    by (simp add: unsigned_ucast_eq take_bit_nat_eq_self)
  then show ?thesis
    using unsigned_push_bit_eq [of n "ucast c :: u32", where ?'a = nat]
      push_bit_eq_mult [of n "unat c"] take_bit_eq_mod [of 32 "unat c * 2 ^ n"]
    by simp
qed

lemma unat_word_of_nat_u16: "n \<le> 65535 \<Longrightarrow> unat (word_of_nat n :: u16) = n"
  by (simp add: unat_of_nat)

lemma unat_drop_bit_u32: "unat (drop_bit n (w :: u32)) = unat w div 2 ^ n"
  using unat_drop_bit_eq [of n w] drop_bit_eq_div [of n "unat w"] by simp

lemma bit_nat_ge: "bit (m::nat) k \<Longrightarrow> 2 ^ k \<le> m"
  by (metis bit_iff_odd div_less even_zero linorder_not_less)

lemma nbit_nat_lt:
  assumes a: "(m::nat) < 2 ^ Suc k" and b: "\<not> bit m k"
  shows "m < 2 ^ k"
proof -
  have "m div 2 ^ k < 2" using a by (simp add: less_mult_imp_div_less)
  moreover have "even (m div 2 ^ k)" using b by (simp add: bit_iff_odd)
  ultimately have "m div 2 ^ k = 0" by (cases "m div 2 ^ k") auto
  then show ?thesis by (simp add: div_eq_0_iff)
qed

lemma clz_from_zero: "clz_from k 0 = k"
  by (induction k) auto

lemma clz_from_bounds:
  "unat x < 2 ^ k \<Longrightarrow> x \<noteq> 0 \<Longrightarrow>
     clz_from k x < k \<and> 2 ^ (k - clz_from k x - 1) \<le> unat x \<and> unat x < 2 ^ (k - clz_from k x)"
proof (induction k)
  case 0
  then show ?case by (simp add: unat_eq_0)
next
  case (Suc k)
  show ?case
  proof (cases "bit x k")
    case True
    then have "bit (unat x) k" by (simp add: bit_unsigned_iff)
    then have "2 ^ k \<le> unat x" by (rule bit_nat_ge)
    with True Suc.prems show ?thesis by simp
  next
    case False
    then have "\<not> bit (unat x) k" by (simp add: bit_unsigned_iff)
    with Suc.prems(1) have lt: "unat x < 2 ^ k" by (rule nbit_nat_lt)
    from Suc.IH [OF lt Suc.prems(2)] have ih:
      "clz_from k x < k" "2 ^ (k - clz_from k x - 1) \<le> unat x" "unat x < 2 ^ (k - clz_from k x)"
      by simp_all
    from ih(1) have e: "Suc k - Suc (clz_from k x) = k - clz_from k x" by simp
    show ?thesis using False ih by (simp add: e)
  qed
qed

lemma shift0_props:
  fixes pages :: u32
  assumes e_def: "e = unat pages div 1024"
    and s_def: "s = 32 - countl_zero (drop_bit count_bits pages)"
  shows "e = 0 \<longrightarrow> s = 0"
    and "e \<noteq> 0 \<longrightarrow> 0 < s \<and> 2 ^ (s - 1) \<le> e \<and> e < 2 ^ s"
    and "s \<le> 22"
proof -
  let ?x = "drop_bit count_bits pages"
  have ux: "unat ?x = e" by (simp add: unat_drop_bit_u32 count_bits_def e_def)
  have elt: "e < 2 ^ 22"
    using unat_u32_lt [of pages] by (simp add: e_def less_mult_imp_div_less)
  have x32: "unat ?x < 2 ^ 32" using unat_u32_lt [of ?x] by simp
  have z: "s = 0" if "e = 0"
  proof -
    from that ux have "?x = 0" by (simp add: unat_eq_0)
    then show ?thesis by (simp add: s_def countl_zero_def clz_from_zero)
  qed
  have nz: "0 < s \<and> 2 ^ (s - 1) \<le> e \<and> e < 2 ^ s" if "e \<noteq> 0"
  proof -
    from that ux have "?x \<noteq> 0" by (metis unat_eq_0)
    from clz_from_bounds [OF x32 this] show ?thesis
      by (simp add: s_def countl_zero_def ux)
  qed
  show "e = 0 \<longrightarrow> s = 0" using z by blast
  show "e \<noteq> 0 \<longrightarrow> 0 < s \<and> 2 ^ (s - 1) \<le> e \<and> e < 2 ^ s" using nz by blast
  show "s \<le> 22"
  proof (cases "e = 0")
    case True then show ?thesis using z by simp
  next
    case False
    with nz elt have "(2::nat) ^ (s - 1) < 2 ^ 22" by simp
    then have "s - 1 < 22" by (simp only: power_strict_increasing_iff [of 2] rel_simps)
    then show ?thesis by simp
  qed
qed

lemma enc_arith:
  fixes p s q :: nat
  assumes q: "q = 2 ^ s"
    and s0: "p div 1024 = 0 \<longrightarrow> s = 0"
    and s1: "p div 1024 \<noteq> 0 \<longrightarrow> 0 < s \<and> 2 ^ (s - 1) \<le> p div 1024 \<and> p div 1024 < 2 ^ s"
    and c0_def: "c0 = p div q + (if p mod q \<noteq> 0 then 1 else 0)"
  shows "c0 \<le> 1024" and "p \<le> c0 * q" and "c0 * q < p + q" and "q \<le> p + 1"
    and "p < 1024 * q"
    and "1023 < c0 \<Longrightarrow> c0 = 1024 \<and> 1023 * q < p"
    and "p < 1024 \<Longrightarrow> q = 1 \<and> c0 = p"
    and "1024 \<le> p \<Longrightarrow> 1024 * q \<le> 2 * p"
proof -
  have qpos: "0 < q" by (simp add: q)
  show plt: "p < 1024 * q"
  proof (cases "p div 1024 = 0")
    case True
    with s0 have "q = 1" by (simp add: q)
    with True show ?thesis by (simp add: div_eq_0_iff)
  next
    case False
    with s1 have "p div 1024 < q" by (simp add: q)
    then show ?thesis by (simp add: div_less_iff_less_mult mult.commute)
  qed
  then have dlt: "p div q < 1024"
    by (simp add: qpos less_mult_imp_div_less mult.commute)
  then show "c0 \<le> 1024" by (simp add: c0_def)
  define d where "d = p div q"
  define r where "r = p mod q"
  have decomp: "d * q + r = p" by (simp add: d_def r_def)
  have modlt: "r < q" using qpos by (simp add: r_def)
  have c0q: "c0 * q = d * q + (if r \<noteq> 0 then q else 0)"
    by (simp add: c0_def add_mult_distrib d_def r_def)
  show "p \<le> c0 * q"
  proof (cases "r = 0")
    case True with decomp c0q show ?thesis by simp
  next
    case False with decomp c0q modlt show ?thesis by simp
  qed
  show "c0 * q < p + q"
  proof (cases "r = 0")
    case True with decomp c0q qpos show ?thesis by simp
  next
    case False with decomp c0q modlt show ?thesis by simp
  qed
  show qle: "q \<le> p + 1"
  proof (cases "p div 1024 = 0")
    case True
    with s0 show ?thesis by (simp add: q)
  next
    case False
    with s1 have "0 < s" and h: "2 ^ (s - 1) \<le> p div 1024" by simp_all
    then have "q = 2 * 2 ^ (s - 1)" by (cases s) (simp_all add: q)
    with h have "q \<le> 2 * (p div 1024)" by simp
    then show ?thesis by simp
  qed
  show "c0 = 1024 \<and> 1023 * q < p" if "1023 < c0"
  proof -
    from that dlt have dd: "d = 1023" and m: "r \<noteq> 0"
      by (auto simp: c0_def d_def r_def split: if_splits)
    from dd m decomp have "1023 * q < p" by (cases r) auto
    with dd m show ?thesis by (simp add: c0_def d_def r_def)
  qed
  show "q = 1 \<and> c0 = p" if "p < 1024"
  proof -
    from that have "p div 1024 = 0" by simp
    with s0 have "q = 1" by (simp add: q)
    then show ?thesis by (simp add: c0_def)
  qed
  show "1024 * q \<le> 2 * p" if "1024 \<le> p"
  proof -
    from that have "p div 1024 \<noteq> 0" by (simp add: div_eq_0_iff)
    with s1 have "0 < s" and h: "2 ^ (s - 1) \<le> p div 1024" by simp_all
    then have "q = 2 * 2 ^ (s - 1)" by (cases s) (simp_all add: q)
    with h have "q \<le> 2 * (p div 1024)" by simp
    then have "1024 * q \<le> 2 * (1024 * (p div 1024))" by simp
    also have "\<dots> \<le> 2 * p" by simp
    finally show ?thesis .
  qed
qed

lemma word10_eqI: "unat (a :: 10 word) = n \<Longrightarrow> n \<le> 1023 \<Longrightarrow> a = word_of_nat n"
  by (metis of_nat_unat ucast_id)

lemma word5_eqI: "unat (a :: 5 word) = n \<Longrightarrow> a = word_of_nat n"
  by (metis of_nat_unat ucast_id)

lemma le_max_shift: "((w :: u16) \<le> max_shift) = (unat w \<le> 31)"
  by (simp add: word_le_nat_alt max_shift_def)

lemma to_pages_unat:
  "unat (to_pages \<lparr>count = c, shift = sh, reserved0_ = r\<rparr>) = (unat c * 2 ^ unat sh) mod 2 ^ 32"
  by (simp only: to_pages_def unat_push_bit_count spare_type_15.simps)

lemma spare_assertions_char:
  fixes pages cw :: u32 and sw :: u16
  assumes c: "unat cw = c" "c \<le> 1023" and s: "unat sw = s" "s \<le> 31"
  shows "(if \<not> (ucast cw :: u64) \<le> max_count then Inl Assert_count_le_max_count
        else if \<not> sw \<le> max_shift then Inl Assert_shift_le_max_shift
        else
          let v = \<lparr>count = ucast ((ucast cw :: u64) AND max_count),
                   shift = ucast (sw AND max_shift),
                   reserved0_ = 0\<rparr>
          in if \<not> pages \<le> to_pages v then Inl Assert_to_pages_ge_pages else Inr v)
       = (if unat pages \<le> (c * 2 ^ s) mod 2 ^ 32
          then Inr \<lparr>count = word_of_nat c, shift = word_of_nat s, reserved0_ = 0\<rparr>
          else Inl Assert_to_pages_ge_pages)"
proof -
  have a1: "(ucast cw :: u64) \<le> max_count" using c by (simp add: le_max_count_iff)
  have a2: "sw \<le> max_shift" using s by (simp add: le_max_shift)
  have f1: "(ucast ((ucast cw :: u64) AND max_count) :: 10 word) = word_of_nat c"
    using c by (intro word10_eqI) (simp_all add: unat_count_field)
  have f2: "(ucast (sw AND max_shift) :: 5 word) = word_of_nat s"
    using s by (intro word5_eqI) (simp add: unat_shift_field)
  have uc: "unat (word_of_nat c :: 10 word) = c" using c(2) by (simp add: unat_of_nat)
  have us: "unat (word_of_nat s :: 5 word) = s" using s(2) by (simp add: unat_of_nat)
  have tp: "unat (to_pages \<lparr>count = word_of_nat c, shift = word_of_nat s, reserved0_ = 0\<rparr>)
            = (c * 2 ^ s) mod 2 ^ 32"
    by (simp only: to_pages_unat uc us)
  show ?thesis
    unfolding Let_def f1 f2 using a1 a2 by (simp add: word_le_nat_alt tp)
qed

lemma spare_encoding_char:
  fixes pages :: u32
  assumes p_def: "p = unat pages"
    and s_def: "s = 32 - countl_zero (drop_bit count_bits pages)"
    and c0_def: "c0 = p div 2 ^ s + (if p mod 2 ^ s \<noteq> 0 then 1 else 0)"
  shows "node_disk_pages_spare_15 pages =
     (if c0 \<le> 1023 then Inr \<lparr>count = word_of_nat c0, shift = word_of_nat s, reserved0_ = 0\<rparr>
      else if s < 22 then Inr \<lparr>count = 512, shift = word_of_nat (s + 1), reserved0_ = 0\<rparr>
      else Inl Assert_to_pages_ge_pages)"
proof -
  note sp = shift0_props [OF refl s_def, folded p_def]
  note ar = enc_arith [OF refl sp(1) sp(2) c0_def]
  have s22: "s \<le> 22" by (rule sp(3))
  define sw :: u16 where "sw = word_of_nat s"
  have usw: "unat sw = s" using s22 by (simp add: sw_def unat_word_of_nat_u16)
  define cw :: u32 where
    "cw = drop_bit s pages + (if pages AND (push_bit s 1 - 1) \<noteq> 0 then 1 else 0)"
  have ucw: "unat cw = c0"
  proof -
    let ?b = "(if pages AND (push_bit s 1 - 1) \<noteq> 0 then 1 else 0) :: u32"
    have ub: "unat ?b = (if p mod 2 ^ s \<noteq> 0 then 1 else 0)"
      unfolding low_bits_nonzero_iff p_def by simp
    have "unat (drop_bit s pages) + unat ?b = c0"
      unfolding ub by (simp add: unat_drop_bit_u32 c0_def p_def)
    moreover have "c0 < 2 ^ LENGTH(32)" using ar(1) by simp
    ultimately show ?thesis
      unfolding cw_def using unat_add_lem [of "drop_bit s pages" ?b] by simp
  qed
  have unf: "node_disk_pages_spare_15 pages =
     (let halve = (max_count < ucast cw);
          count1 = (if halve then drop_bit 1 cw else cw);
          shift1 = (if halve then sw + 1 else sw)
      in if \<not> (ucast count1 :: u64) \<le> max_count then Inl Assert_count_le_max_count
        else if \<not> shift1 \<le> max_shift then Inl Assert_shift_le_max_shift
        else
          let v = \<lparr>count = ucast ((ucast count1 :: u64) AND max_count),
                   shift = ucast (shift1 AND max_shift),
                   reserved0_ = 0\<rparr>
          in if \<not> pages \<le> to_pages v then Inl Assert_to_pages_ge_pages else Inr v)"
    unfolding node_disk_pages_spare_15_def Let_def cw_def s_def [symmetric]
    unfolding sw_def usw [unfolded sw_def] by (rule refl)
  have hv: "(max_count < (ucast cw :: u64)) = (1023 < c0)" by (simp add: max_count_less_iff ucw)
  have q22: "(2::nat) ^ s \<le> 2 ^ 22" using s22 by (simp only: power_increasing_iff [of 2] rel_simps)
  show ?thesis
  proof (cases "c0 \<le> 1023")
    case True
    have "c0 * 2 ^ s \<le> 1023 * 2 ^ 22" using True q22 by (rule mult_le_mono)
    then have "c0 * 2 ^ s < 2 ^ 32" by simp
    then have m: "(c0 * 2 ^ s) mod 2 ^ 32 = c0 * 2 ^ s" by simp
    have ple: "p \<le> c0 * 2 ^ s" by (rule ar(2))
    from True have nh: "\<not> 1023 < c0" by simp
    have s31: "s \<le> 31" using s22 by simp
    have "node_disk_pages_spare_15 pages =
        (if unat pages \<le> (c0 * 2 ^ s) mod 2 ^ 32
          then Inr \<lparr>count = word_of_nat c0, shift = word_of_nat s, reserved0_ = 0\<rparr>
          else Inl Assert_to_pages_ge_pages)"
      unfolding unf hv Let_def if_not_P [OF nh]
      by (rule spare_assertions_char [OF ucw True usw s31, unfolded Let_def])
    with True ple show ?thesis unfolding m by (simp add: p_def)
  next
    case False
    then have h: "1023 < c0" by simp
    from ar(6) [OF h] have c1024: "c0 = 1024" and big: "1023 * 2 ^ s < p" by simp_all
    have u1: "unat (drop_bit 1 cw) = 512" by (simp add: unat_drop_bit_u32 ucw c1024)
    have u2: "unat (sw + 1) = s + 1"
      using unat_add_lem [of sw 1] usw s22 by simp
    have tl: "node_disk_pages_spare_15 pages =
        (if p \<le> (512 * 2 ^ (s + 1)) mod 2 ^ 32
          then Inr \<lparr>count = word_of_nat 512, shift = word_of_nat (s + 1), reserved0_ = 0\<rparr>
          else Inl Assert_to_pages_ge_pages)"
      unfolding unf hv Let_def if_P [OF h] p_def
      by (rule spare_assertions_char [OF u1 _ u2, unfolded Let_def]) (use s22 in simp_all)
    show ?thesis
    proof (cases "s < 22")
      case True
      then have "s + 10 \<le> 31" by simp
      then have "(2::nat) ^ (s + 10) \<le> 2 ^ 31" by (simp only: power_increasing_iff [of 2] rel_simps)
      moreover have e: "(512::nat) * 2 ^ (s + 1) = 2 ^ (s + 10)" by (simp add: power_add)
      ultimately have "(512::nat) * 2 ^ (s + 1) < 2 ^ 32" by simp
      then have m: "((512::nat) * 2 ^ (s + 1)) mod 2 ^ 32 = 512 * 2 ^ (s + 1)" by simp
      have "p < 1024 * 2 ^ s" by (rule ar(5))
      then have "p \<le> 512 * 2 ^ (s + 1)" by simp
      with True h show ?thesis unfolding tl m by simp
    next
      case False
      with s22 have s: "s = 22" by simp
      have "0 < p" using big by simp
      with False h show ?thesis unfolding tl by (simp add: s)
    qed
  qed
qed

lemma to_pages_of_nat:
  assumes "c \<le> 1023" "s \<le> 31" "c * 2 ^ s < 2 ^ 32"
  shows "unat (to_pages \<lparr>count = word_of_nat c, shift = word_of_nat s, reserved0_ = r\<rparr>) = c * 2 ^ s"
proof -
  have uc: "unat (word_of_nat c :: 10 word) = c" using assms(1) by (simp add: unat_of_nat)
  have us: "unat (word_of_nat s :: 5 word) = s" using assms(2) by (simp add: unat_of_nat)
  show ?thesis using assms(3) by (simp only: to_pages_unat uc us mod_less)
qed

lemma spare_encoding_cases:
  fixes pages :: u32
  obtains (exact) c s where
      "node_disk_pages_spare_15 pages
         = Inr \<lparr>count = word_of_nat c, shift = word_of_nat s, reserved0_ = 0\<rparr>"
      "c \<le> 1023" "s \<le> 22" "unat pages \<le> c * 2 ^ s" "c * 2 ^ s < unat pages + 2 ^ s"
      "2 ^ s \<le> unat pages + 1" "unat pages < 1024 \<longrightarrow> s = 0 \<and> c = unat pages"
      "c * 2 ^ s \<le> 1023 * 2 ^ 22"
  | (halved) s where
      "node_disk_pages_spare_15 pages
         = Inr \<lparr>count = word_of_nat 512, shift = word_of_nat (s + 1), reserved0_ = 0\<rparr>"
      "s < 22" "1024 \<le> unat pages" "unat pages < 512 * 2 ^ (s + 1)"
      "512 * 2 ^ (s + 1) \<le> 2 * unat pages" "1023 * 2 ^ s < unat pages"
  | (overflow)
      "node_disk_pages_spare_15 pages = Inl Assert_to_pages_ge_pages"
      "1023 * 2 ^ 22 < unat pages"
proof -
  define p where "p = unat pages"
  define s where "s = 32 - countl_zero (drop_bit count_bits pages)"
  define c0 where "c0 = p div 2 ^ s + (if p mod 2 ^ s \<noteq> 0 then 1 else 0)"
  note ch = spare_encoding_char [OF p_def s_def c0_def]
  note sp = shift0_props [OF refl s_def, folded p_def]
  note ar = enc_arith [OF refl sp(1) sp(2) c0_def]
  have q22: "(2::nat) ^ s \<le> 2 ^ 22"
    using sp(3) by (simp only: power_increasing_iff [of 2] rel_simps)
  show ?thesis
  proof (cases "c0 \<le> 1023")
    case True
    have "c0 * 2 ^ s \<le> 1023 * 2 ^ 22" using True q22 by (rule mult_le_mono)
    with True ch sp(3) ar show ?thesis
      by (intro exact [of c0 s]) (simp_all add: p_def [symmetric])
  next
    case False
    then have h: "1023 < c0" by simp
    from ar(6) [OF h] have c1024: "c0 = 1024" and big: "1023 * 2 ^ s < p" by simp_all
    have p1024: "1024 \<le> p"
    proof (rule ccontr)
      assume "\<not> 1024 \<le> p"
      then have "p < 1024" by simp
      with ar(7) c1024 show False by simp
    qed
    show ?thesis
    proof (cases "s < 22")
      case True
      have "512 * 2 ^ (s + 1) = (1024::nat) * 2 ^ s" by simp
      with True h ch ar(5) ar(8) [OF p1024] big p1024 show ?thesis
        by (intro halved [of s]) (simp_all add: p_def [symmetric])
    next
      case False
      with sp(3) have "s = 22" by simp
      with False h ch big show ?thesis
        by (intro overflow) (simp_all add: p_def [symmetric])
    qed
  qed
qed

text \<open>
  Claim C3: for every page count \<open>P\<close> below \<open>2^20\<close> the constructor succeeds, and the
  decoded value \<open>to_pages\<close> (that is \<open>count << shift\<close>) is at least \<open>P\<close> and less than
  \<open>2 * P + 1024\<close>.
\<close>

theorem page_encoding_bounds:
  fixes pages :: u32
  assumes "pages < 0x100000"
  shows "\<exists>v. node_disk_pages_spare_15 pages = Inr v \<and> pages \<le> to_pages v
              \<and> unat (to_pages v) < 2 * unat pages + 1024"
proof -
  from assms have plt: "unat pages < 1048576" by (simp add: word_less_nat_alt)
  show ?thesis
  proof (cases pages rule: spare_encoding_cases)
    case (exact c s)
    from exact(8) have lt: "c * 2 ^ s < 2 ^ 32" by simp
    from exact(3) have s31: "s \<le> 31" by simp
    note tp = to_pages_of_nat [OF exact(2) s31 lt, of 0]
    from exact show ?thesis by (simp add: word_le_nat_alt tp)
  next
    case (halved s)
    from halved(5) plt have lt: "512 * 2 ^ (s + 1) < (2::nat) ^ 32" by simp
    from halved(2) have s31: "s + 1 \<le> 31" by simp
    note tp = to_pages_of_nat [OF _ s31 lt, of 0, simplified]
    from halved show ?thesis by (simp add: word_le_nat_alt tp)
  next
    case overflow
    with plt show ?thesis by simp
  qed
qed

theorem page_encoding_bounds_witness:
  "(1000000 :: u32) < 0x100000 \<and>
   (\<exists>v. node_disk_pages_spare_15 1000000 = Inr v \<and> 1000000 \<le> to_pages v
        \<and> unat (to_pages v) < 2 * unat (1000000 :: u32) + 1024)"
  using page_encoding_bounds [of 1000000] by simp

text \<open>
  Claim C10: for every page count \<open>P\<close> in \<open>[0, 1023]\<close> the encoding is exact: the shift is
  0, the count is \<open>P\<close>, and decoding gives \<open>P\<close> back.
\<close>

theorem small_page_count_exact:
  fixes pages :: u32
  assumes "pages \<le> 1023"
  shows "\<exists>v. node_disk_pages_spare_15 pages = Inr v \<and> shift v = 0 \<and> ucast (count v) = pages
              \<and> to_pages v = pages"
proof -
  from assms have plt: "unat pages < 1024" by (simp add: word_le_nat_alt)
  show ?thesis
  proof (cases pages rule: spare_encoding_cases)
    case (exact c s)
    with plt have s0: "s = 0" and c: "c = unat pages" by simp_all
    have uc: "(ucast (ucast pages :: 10 word) :: u32) = pages"
    proof (rule unsigned_word_eqI [where ?'a = nat])
      have "unat (ucast (ucast pages :: 10 word) :: u32) = take_bit 32 (take_bit 10 (unat pages))"
        by (simp only: unsigned_ucast_eq unsigned_take_bit_eq) (simp add: unsigned_take_bit_eq)
      also have "\<dots> = unat pages" using plt by (simp add: take_bit_nat_eq_self)
      finally show "unat (ucast (ucast pages :: 10 word) :: u32) = unat pages" .
    qed
    show ?thesis unfolding exact(1) s0 c by (simp add: to_pages_def uc)
  next
    case (halved s)
    with plt show ?thesis by simp
  next
    case overflow
    with plt show ?thesis by simp
  qed
qed

theorem small_page_count_exact_witness:
  "(1023 :: u32) \<le> 1023 \<and>
   (\<exists>v. node_disk_pages_spare_15 1023 = Inr v \<and> shift v = 0 \<and> ucast (count v) = (1023 :: u32)
        \<and> to_pages v = 1023)"
  using small_page_count_exact [of 1023] by simp

text \<open>
  Claim C4, as amended: the assertions \<open>count \<le> max_count\<close> and
  \<open>shift \<le> max_shift\<close> never fail; the assertion \<open>to_pages() \<ge> pages\<close> holds for every
  page count up to \<open>1023 * 2^22 = 0xFFC00000\<close>, and fails for every larger one, where the
  rounded-up count 1024 is halved to 512 with shift 23 and \<open>512 << 23\<close> wraps to 0 in 32 bits.
\<close>

theorem page_count_assertions:
  fixes pages :: u32
  shows "node_disk_pages_spare_15 pages \<noteq> Inl Assert_count_le_max_count
       \<and> node_disk_pages_spare_15 pages \<noteq> Inl Assert_shift_le_max_shift
       \<and> (pages \<le> 0xFFC00000 \<longrightarrow>
            (\<exists>v. node_disk_pages_spare_15 pages = Inr v \<and> pages \<le> to_pages v))
       \<and> (0xFFC00000 < pages \<longrightarrow>
            node_disk_pages_spare_15 pages = Inl Assert_to_pages_ge_pages)"
proof (cases pages rule: spare_encoding_cases)
  case (exact c s)
  from exact(8) have lt: "c * 2 ^ s < 2 ^ 32" by simp
  from exact(3) have s31: "s \<le> 31" by simp
  note tp = to_pages_of_nat [OF exact(2) s31 lt, of 0]
  from exact(4) exact(8) have "unat pages \<le> 4290772992" by simp
  then have le: "pages \<le> 0xFFC00000" by (simp add: word_le_nat_alt)
  from exact(4) have "pages \<le> to_pages \<lparr>count = word_of_nat c, shift = word_of_nat s, reserved0_ = 0\<rparr>"
    by (simp add: word_le_nat_alt tp)
  with le show ?thesis unfolding exact(1) by simp
next
  case (halved s)
  from halved(2) have "s + 10 \<le> 31" by simp
  then have "(2::nat) ^ (s + 10) \<le> 2 ^ 31" by (simp only: power_increasing_iff [of 2] rel_simps)
  moreover have e: "(512::nat) * 2 ^ (s + 1) = 2 ^ (s + 10)" by (simp add: power_add)
  ultimately have lt: "512 * 2 ^ (s + 1) < (2::nat) ^ 32" by simp
  from halved(2) have s31: "s + 1 \<le> 31" by simp
  note tp = to_pages_of_nat [OF _ s31 lt, of 0, simplified]
  from halved(4) e \<open>(2::nat) ^ (s + 10) \<le> 2 ^ 31\<close> have "unat pages \<le> 4290772992" by simp
  then have le: "pages \<le> 0xFFC00000" by (simp add: word_le_nat_alt)
  from halved(4) have "pages \<le> to_pages \<lparr>count = word_of_nat 512, shift = word_of_nat (s + 1), reserved0_ = 0\<rparr>"
    by (simp add: word_le_nat_alt tp)
  with le show ?thesis unfolding halved(1) by simp
next
  case overflow
  then have "0xFFC00000 < pages" by (simp add: word_less_nat_alt)
  with overflow show ?thesis by simp
qed

lemma countl_zero_exp_max: "countl_zero (drop_bit count_bits (0xFFFFFFFF :: u32)) = 10"
proof -
  have "drop_bit count_bits (0xFFFFFFFF :: u32) = 0x3FFFFF" by (simp add: count_bits_def)
  moreover have "clz_from 32 (0x3FFFFF :: u32) = 10"
    by (simp add: numeral_eq_Suc)
  ultimately show ?thesis by (simp add: countl_zero_def)
qed

theorem page_count_assertions_witness:
  "((1050000 :: u32) \<le> 0xFFC00000 \<and>
      (\<exists>v. node_disk_pages_spare_15 1050000 = Inr v \<and> 1050000 \<le> to_pages v))
   \<and> ((0xFFC00000 :: u32) < 0xFFC00001 \<and>
      node_disk_pages_spare_15 0xFFC00001 = Inl Assert_to_pages_ge_pages)"
  using page_count_assertions [of 1050000] page_count_assertions [of "0xFFC00001"] by simp

text \<open>
  Claim C4 as stated (no assertion is reachable for any 32-bit page count) fails at
  \<open>P = 2^32 - 1\<close>: the final assertion fires.
\<close>

theorem page_count_assertions_counterexample: "node_disk_pages_spare_15 0xFFFFFFFF = Inl Assert_to_pages_ge_pages"
  unfolding node_disk_pages_spare_15_def Let_def countl_zero_exp_max
  by (simp add: max_count_def max_shift_def to_pages_def Let_def)

lemma countl_zero_exp_S5: "countl_zero (drop_bit count_bits (1050000 :: u32)) = 21"
proof -
  have "drop_bit count_bits (1050000 :: u32) = 1025" by (simp add: count_bits_def)
  moreover have "clz_from 32 (1025 :: u32) = 21"
    by (simp add: numeral_eq_Suc)
  ultimately show ?thesis by (simp add: countl_zero_def)
qed

lemma spare_encoding_S5: "node_disk_pages_spare_15 1050000 = Inr \<lparr>count = 513, shift = 11, reserved0_ = 0\<rparr>"
  unfolding node_disk_pages_spare_15_def Let_def countl_zero_exp_S5
  by (simp add: max_count_def max_shift_def to_pages_def Let_def)

section \<open>Proofs: child iteration\<close>

lemma nat_pred_bits:
  "bit (n::nat) t \<Longrightarrow> \<forall>j<t. \<not> bit n j \<Longrightarrow>
     bit (n - 1) j = (if j < t then True else if j = t then False else bit n j)"
proof (induction t arbitrary: n j)
  case 0
  then have o: "odd n" by (simp add: bit_0)
  then have d: "(n - 1) div 2 = n div 2" by (cases n) auto
  show ?case
  proof (cases j)
    case 0
    with o show ?thesis by (simp add: bit_0)
  next
    case (Suc j')
    with d show ?thesis by (simp add: bit_Suc)
  qed
next
  case (Suc t)
  from Suc.prems(2) have e: "even n" by (auto simp: bit_0 dest: spec [of _ 0])
  have nz: "n \<noteq> 0"
  proof
    assume "n = 0"
    with Suc.prems(1) show False by simp
  qed
  from e nz have o: "odd (n - 1)" by (cases n) auto
  from e nz have d: "(n - 1) div 2 = n div 2 - 1" by (cases n) auto
  have k1: "bit (n div 2) t" using Suc.prems(1) by (simp add: bit_Suc)
  have k2: "\<forall>j<t. \<not> bit (n div 2) j"
  proof (intro allI impI)
    fix j assume "j < t"
    then have "Suc j < Suc t" by simp
    with Suc.prems(2) have "\<not> bit n (Suc j)" by blast
    then show "\<not> bit (n div 2) j" by (simp add: bit_Suc)
  qed
  show ?case
  proof (cases j)
    case 0
    with o show ?thesis by (simp add: bit_0)
  next
    case (Suc j')
    with Suc.IH [OF k1 k2, of j'] d show ?thesis by (simp add: bit_Suc)
  qed
qed

lemma clear_lowest_bit:
  fixes m :: "'a::len word"
  assumes t: "bit m t" and low: "\<forall>j<t. \<not> bit m j"
  shows "bit (m AND (m - 1)) j = (bit m j \<and> j \<noteq> t)"
proof -
  from t have nz: "m \<noteq> 0" by auto
  have b1: "bit (unat m) t" using t by (simp add: bit_unsigned_iff)
  have b2: "\<forall>j<t. \<not> bit (unat m) j" using low by (simp add: bit_unsigned_iff)
  have "bit (m - 1) j = (j < LENGTH('a) \<and> bit (unat (m - 1)) j)"
    by (auto simp: bit_unsigned_iff dest: bit_imp_le_length)
  also have "\<dots> = (j < LENGTH('a) \<and> bit (unat m - 1) j)"
    using nz by (simp add: unat_minus_one)
  also have "\<dots> = (j < LENGTH('a) \<and> (if j < t then True else if j = t then False else bit (unat m) j))"
    by (simp only: nat_pred_bits [OF b1 b2])
  finally have p: "bit (m - 1) j
      = (j < LENGTH('a) \<and> (if j < t then True else if j = t then False else bit m j))"
    by (simp add: bit_unsigned_iff)
  show ?thesis
    using low by (auto simp: bit_and_iff p dest: bit_imp_le_length)
qed

lemma takeWhile_upt_props:
  assumes "\<exists>i<n. \<not> P i"
  defines "t \<equiv> length (takeWhile P [0..<n])"
  shows "t < n" and "\<not> P t" and "\<forall>j<t. P j"
proof -
  from assms(1) obtain i where i: "i < n" "\<not> P i" by blast
  have "t \<le> length [0..<n]" unfolding t_def by (rule length_takeWhile_le)
  have ne: "takeWhile P [0..<n] \<noteq> [0..<n]"
  proof
    assume "takeWhile P [0..<n] = [0..<n]"
    then have "\<forall>x\<in>set [0..<n]. P x" by (simp add: takeWhile_eq_all_conv)
    with i show False by simp
  qed
  show lt: "t < n"
  proof (rule ccontr)
    assume "\<not> t < n"
    with \<open>t \<le> length [0..<n]\<close> have "length (takeWhile P [0..<n]) = length [0..<n]"
      by (simp add: t_def)
    then have "takeWhile P [0..<n] = [0..<n]"
      by (metis takeWhile_eq_take take_all order_refl)
    with ne show False by simp
  qed
  have "\<not> P ([0..<n] ! t)"
    unfolding t_def by (rule nth_length_takeWhile) (use lt in \<open>simp add: t_def\<close>)
  with lt show "\<not> P t" by simp
  show "\<forall>j<t. P j"
  proof (intro allI impI)
    fix j assume j: "j < t"
    then have jl: "j < length (takeWhile P [0..<n])" by (simp add: t_def)
    then have "takeWhile P [0..<n] ! j \<in> set (takeWhile P [0..<n])" by (rule nth_mem)
    then have "P (takeWhile P [0..<n] ! j)" by (rule set_takeWhileD [THEN conjunct2])
    moreover have "takeWhile P [0..<n] ! j = [0..<n] ! j" using jl by (rule takeWhile_nth)
    ultimately show "P j" using j lt by simp
  qed
qed

declare range_for.simps [simp del]

lemma ctzl_props:
  fixes m :: u16
  assumes nz: "m \<noteq> 0"
  defines "t \<equiv> builtin_ctzl (ucast m)"
  shows "t < 16" and "bit m t" and "\<forall>j<t. \<not> bit m j"
proof -
  let ?x = "ucast m :: u64"
  have bx: "bit ?x i = bit m i" for i
    by (auto simp: bit_ucast_iff dest: bit_imp_le_length)
  from nz obtain i where i: "bit m i" by (auto simp: bit_eq_iff)
  then have "i < 16" by (auto dest: bit_imp_le_length)
  with i have ex: "\<exists>i<64. \<not> \<not> bit ?x i" by (auto simp: bx intro!: exI [of _ i])
  note tw = takeWhile_upt_props [OF ex, folded builtin_ctzl_def, folded t_def]
  from tw(2) show b: "bit m t" by (simp add: bx)
  then show "t < 16" by (auto dest: bit_imp_le_length)
  from tw(3) show "\<forall>j<t. \<not> bit m j" by (simp add: bx)
qed

lemma filter_bits_step:
  fixes m :: "'a::len word"
  assumes tn: "t < n" and t: "bit m t" and low: "\<forall>j<t. \<not> bit m j"
  shows "filter (bit m) [0..<n] = t # filter (bit (m AND (m - 1))) [0..<n]"
proof -
  note c = clear_lowest_bit [OF t low]
  have split: "[0..<n] = [0..<t] @ t # [Suc t..<n]"
    using tn by (metis upt_add_eq_append upt_conv_Cons le0 le_add_diff_inverse less_imp_le add_0)
  have l1: "filter (bit m) [0..<t] = []" using low by (simp add: filter_empty_conv)
  have l2: "filter (bit (m AND (m - 1))) [0..<t] = []"
    using low by (simp add: filter_empty_conv c)
  have l3: "filter (bit (m AND (m - 1))) [Suc t..<n] = filter (bit m) [Suc t..<n]"
    by (rule filter_cong) (auto simp: c)
  show ?thesis
    unfolding split filter_append filter.simps l1 l2 l3 using t by (simp add: c)
qed

lemma upt_Suc_shift: "[0..<Suc n] = 0 # map Suc [0..<n]"
  by (simp add: upt_conv_Cons map_Suc_upt del: upt_Suc)

lemma range_for_char:
  "map (unat \<circ> snd) (range_for it) = filter (bit (it_mask it)) [0..<16]
   \<and> map fst (range_for it) = map (\<lambda>k. it_index it + word_of_nat k) [0..<length (range_for it)]"
proof (induction it rule: range_for.induct)
  case (1 it)
  show ?case
  proof (cases "iterator_neq_sentinel it")
    case False
    then have z: "it_mask it = 0" by (simp add: iterator_neq_sentinel_def)
    have "filter (bit (0 :: u16)) [0..<16] = []" by (simp add: filter_empty_conv)
    with False z show ?thesis by (simp add: range_for.simps [of it])
  next
    case True
    then have nz: "it_mask it \<noteq> 0" by (simp add: iterator_neq_sentinel_def)
    define t where "t = builtin_ctzl (ucast (it_mask it))"
    note cp = ctzl_props [OF nz, folded t_def]
    have ut: "unat (word_of_nat t :: u8) = t" using cp(1) by (simp add: unat_of_nat)
    note ih = "1.IH" [OF True]
    have unf: "range_for it = (it_index it, word_of_nat t) # range_for (iterator_incr it)"
      using True by (simp add: range_for.simps [of it] iterator_deref_def t_def)
    have m': "it_mask (iterator_incr it) = it_mask it AND (it_mask it - 1)"
      and i': "it_index (iterator_incr it) = it_index it + 1"
      by (simp_all add: iterator_incr_def)
    have a: "map (unat \<circ> snd) (range_for it) = filter (bit (it_mask it)) [0..<16]"
      unfolding unf using ih [THEN conjunct1] filter_bits_step [OF cp(1) cp(2) cp(3)]
      by (simp add: ut m' comp_def)
    have b: "map fst (range_for it)
        = map (\<lambda>k. it_index it + word_of_nat k) [0..<length (range_for it)]"
      unfolding unf using ih [THEN conjunct2]
      by (simp add: i' upt_Suc_shift comp_def add.assoc del: upt_Suc)
    from a b show ?thesis by blast
  qed
qed

lemma filter_less_nth:
  assumes s: "sorted_wrt (<) (bs :: nat list)" and k: "k < length bs"
  shows "filter (\<lambda>j. j < bs ! k) bs = take k bs"
proof -
  have split: "bs = take k bs @ bs ! k # drop (Suc k) bs" using k by (rule id_take_nth_drop)
  have a: "filter (\<lambda>j. j < bs ! k) (take k bs) = take k bs"
  proof (rule filter_True, rule ballI)
    fix x assume "x \<in> set (take k bs)"
    then obtain i where i: "i < k" "x = bs ! i" using k
      by (auto simp: in_set_conv_nth)
    with s k show "x < bs ! k" by (simp add: sorted_wrt_nth_less)
  qed
  have b: "filter (\<lambda>j. j < bs ! k) (drop (Suc k) bs) = []"
  proof (rule filter_False, rule ballI)
    fix x assume "x \<in> set (drop (Suc k) bs)"
    then obtain i where i: "i < length bs - Suc k" "x = bs ! (Suc k + i)"
      by (auto simp: in_set_conv_nth)
    then have "k < Suc k + i" "Suc k + i < length bs" by simp_all
    then have "bs ! k < bs ! (Suc k + i)" by (rule sorted_wrt_nth_less [OF s])
    with i show "\<not> x < bs ! k" by simp
  qed
  have "filter (\<lambda>j. j < bs ! k) bs
      = filter (\<lambda>j. j < bs ! k) (take k bs @ bs ! k # drop (Suc k) bs)"
    using split by simp
  also have "\<dots> = take k bs" by (simp add: a b)
  finally show ?thesis .
qed

lemma sorted_set_bits: "sorted_wrt (<) (filter P [0..<n])"
  by (rule sorted_wrt_filter) (rule sorted_wrt_upt)

lemma filter_upt_cut:
  assumes nk: "n \<le> k" and hi: "\<forall>j\<ge>n. \<not> P j"
  shows "filter P [0..<k] = filter P [0..<n]"
proof -
  from nk obtain d where d: "k = n + d" by (auto simp: le_iff_add)
  have "[0..<n + d] = [0..<n] @ [n..<n + d]" by (rule upt_add_eq_append) simp
  moreover have "filter P [n..<n + d] = []"
    unfolding filter_empty_conv set_upt using hi by auto
  ultimately show ?thesis unfolding d by simp
qed

lemma popcount_below:
  fixes m :: u16
  assumes "b \<le> 16"
  shows "popcount ((ucast m :: u32) AND (push_bit b 1 - 1))
         = length (filter (\<lambda>j. j < b) (filter (bit m) [0..<16]))"
proof -
  define w where "w = (ucast m :: u32) AND (push_bit b 1 - 1)"
  have w: "w = (ucast m :: u32) AND mask b" by (simp add: w_def mask_eq_exp_minus_1)
  have bw: "bit w j = (bit m j \<and> j < b)" for j
    unfolding w using assms by (auto simp: bit_and_iff bit_mask_iff bit_ucast_iff dest: bit_imp_le_length)
  have hi: "\<forall>j\<ge>16. \<not> bit w j" using assms by (auto simp: bw)
  have "popcount w = length (filter (bit w) [0..<32])" by (simp add: popcount_def)
  also have "filter (bit w) [0..<32] = filter (bit w) [0..<16]"
    by (rule filter_upt_cut [OF _ hi]) simp
  also have "\<dots> = filter (\<lambda>j. j < b) (filter (bit m) [0..<16])"
    unfolding filter_filter by (rule filter_cong) (auto simp: bw)
  finally show ?thesis unfolding w_def .
qed

lemma NodeChildrenRange_char:
  "map (unat \<circ> snd) (NodeChildrenRange m) = filter (bit m) [0..<16]"
  "map fst (NodeChildrenRange m) = map word_of_nat [0..<length (NodeChildrenRange m)]"
  "length (NodeChildrenRange m) = popcount m"
proof -
  note rc = range_for_char [of "\<lparr>it_index = 0, it_mask = m\<rparr>", folded NodeChildrenRange_def]
  from rc show a: "map (unat \<circ> snd) (NodeChildrenRange m) = filter (bit m) [0..<16]" by simp
  from rc show "map fst (NodeChildrenRange m) = map word_of_nat [0..<length (NodeChildrenRange m)]"
    by simp
  have "length (NodeChildrenRange m) = length (map (unat \<circ> snd) (NodeChildrenRange m))" by simp
  also have "\<dots> = popcount m" unfolding a by (simp add: popcount_def)
  finally show "length (NodeChildrenRange m) = popcount m" .
qed

lemma popcount_le: "popcount (m :: u16) \<le> 16"
  using length_filter_le [of "bit m" "[0..<16]"] by (simp add: popcount_def)

text \<open>
  Claim C5: for every 16-bit mask the loop over \<open>NodeChildrenRange\<close> yields one pair per
  set bit, the branches in ascending order and the dense indices \<open>0, 1, 2, ...\<close>; for
  every set branch \<open>b\<close> below 16, \<open>to_child_index\<close> is the number of set bits below
  \<open>b\<close>, and it is the dense index the loop pairs with \<open>b\<close>.
\<close>

theorem children_range_branch_map:
  fixes m :: u16
  shows "map (unat \<circ> snd) (NodeChildrenRange m) = filter (bit m) [0..<16]
    \<and> map (unat \<circ> fst) (NodeChildrenRange m) = [0..<popcount m]
    \<and> (\<forall>b<16. bit m b \<longrightarrow>
          to_child_index m (word_of_nat b)
            = Inr (word_of_nat (popcount ((ucast m :: u32) AND (push_bit b 1 - 1)))))
    \<and> (\<forall>p \<in> set (NodeChildrenRange m). to_child_index m (ucast (snd p)) = Inr (ucast (fst p)))"
proof (intro conjI allI impI ballI)
  note ch = NodeChildrenRange_char [of m]
  let ?bs = "filter (bit m) [0..<16]"
  show "map (unat \<circ> snd) (NodeChildrenRange m) = ?bs" by (rule ch(1))
  have "map (unat \<circ> fst) (NodeChildrenRange m) = map unat (map fst (NodeChildrenRange m))"
    by simp
  also have "\<dots> = map (\<lambda>k. unat (word_of_nat k :: u8)) [0..<popcount m]"
    unfolding ch(2) ch(3) by (simp add: comp_def)
  also have "\<dots> = map (\<lambda>k. k) [0..<popcount m]"
    using popcount_le [of m] by (intro map_cong refl) (simp add: unat_of_nat)
  finally show "map (unat \<circ> fst) (NodeChildrenRange m) = [0..<popcount m]" by simp
  {
    fix b :: nat assume b: "b < 16" "bit m b"
    then have "unat (word_of_nat b :: u32) = b" by (simp add: unat_of_nat)
    with b show "to_child_index m (word_of_nat b)
        = Inr (word_of_nat (popcount ((ucast m :: u32) AND (push_bit b 1 - 1))))"
      by (simp add: to_child_index_def del: push_bit_of_1)
  }
  {
    fix p assume "p \<in> set (NodeChildrenRange m)"
    then obtain k where k: "k < length (NodeChildrenRange m)" "p = NodeChildrenRange m ! k"
      by (auto simp: in_set_conv_nth)
    have klen: "k < length ?bs" using k(1) ch(1) by (metis length_map)
    have sb: "unat (snd p) = ?bs ! k"
      using k ch(1) by (metis nth_map comp_apply)
    have fp: "fst p = word_of_nat k"
      using k ch(2) by (metis nth_map nth_upt add_0 length_map)
    have "?bs ! k \<in> set ?bs" using klen by (rule nth_mem)
    then have bk: "bit m (?bs ! k)" "?bs ! k < 16" by simp_all
    have us: "unat (ucast (snd p) :: u32) = ?bs ! k"
      using sb bk(2) by (simp add: unsigned_ucast_eq take_bit_nat_eq_self)
    have "popcount ((ucast m :: u32) AND (push_bit (?bs ! k) 1 - 1))
        = length (filter (\<lambda>j. j < ?bs ! k) ?bs)"
      using bk(2) by (intro popcount_below) simp
    also have "\<dots> = length (take k ?bs)"
      by (simp only: filter_less_nth [OF sorted_set_bits klen])
    also have "\<dots> = k" using klen by simp
    finally have pc: "popcount ((ucast m :: u32) AND (push_bit (?bs ! k) 1 - 1)) = k" .
    have "(ucast (fst p) :: u32) = word_of_nat k"
      unfolding fp using k(1) ch(3) popcount_le [of m]
      by (intro unsigned_word_eqI [where ?'a = nat])
         (simp add: unsigned_ucast_eq unat_of_nat take_bit_nat_eq_self)
    with bk(1) show "to_child_index m (ucast (snd p)) = Inr (ucast (fst p))"
      by (simp add: to_child_index_def us pc del: push_bit_of_1)
  }
qed

lemma set_bits_8421: "filter (bit (0x8421 :: u16)) [0..<16] = [0, 5, 10, 15]"
  by (simp add: bit_numeral_rec upt_rec)

lemma range_for_step:
  "m \<noteq> 0 \<Longrightarrow> range_for \<lparr>it_index = i, it_mask = m\<rparr>
     = (i, word_of_nat (builtin_ctzl (ucast m))) # range_for \<lparr>it_index = i + 1, it_mask = m AND (m - 1)\<rparr>"
  by (simp add: range_for.simps [of "\<lparr>it_index = i, it_mask = m\<rparr>"] iterator_neq_sentinel_def
      iterator_deref_def iterator_incr_def)

lemma range_for_done: "range_for \<lparr>it_index = i, it_mask = 0\<rparr> = []"
  by (simp add: range_for.simps [of "\<lparr>it_index = i, it_mask = 0\<rparr>"] iterator_neq_sentinel_def)

lemma range_8421: "NodeChildrenRange 0x8421 = [(0, 0), (1, 5), (2, 10), (3, 15)]"
  by (simp add: NodeChildrenRange_def range_for_step range_for_done builtin_ctzl_def bit_numeral_rec upt_rec)

theorem children_range_branch_map_witness:
  "map (unat \<circ> snd) (NodeChildrenRange 0x8421) = [0, 5, 10, 15]
   \<and> map (unat \<circ> fst) (NodeChildrenRange 0x8421) = [0, 1, 2, 3]
   \<and> (10 :: nat) < 16 \<and> bit (0x8421 :: u16) (10 :: nat)
   \<and> to_child_index 0x8421 10 = Inr 2
   \<and> (3, 15) \<in> set (NodeChildrenRange 0x8421) \<and> to_child_index 0x8421 15 = Inr 3"
proof -
  note t = children_range_branch_map [of "0x8421"]
  have b: "bit (0x8421 :: u16) (10 :: nat)" by (simp add: bit_numeral_rec)
  have pc: "popcount (0x8421 :: u16) = 4" by (simp add: popcount_def set_bits_8421)
  from t have a1: "map (unat \<circ> snd) (NodeChildrenRange 0x8421) = [0, 5, 10, 15]"
    by (simp only: set_bits_8421)
  from t have a2: "map (unat \<circ> fst) (NodeChildrenRange 0x8421) = [0, 1, 2, 3]"
    unfolding pc by (simp add: upt_rec)
  have p10: "popcount ((ucast (0x8421 :: u16) :: u32) AND (push_bit 10 1 - 1)) = 2"
    by (simp add: popcount_def bit_numeral_rec upt_rec)
  from t have "\<forall>b<16. bit (0x8421 :: u16) b \<longrightarrow>
          to_child_index 0x8421 (word_of_nat b)
            = Inr (word_of_nat (popcount ((ucast (0x8421 :: u16) :: u32) AND (push_bit b 1 - 1))))"
    by blast
  from this [rule_format, of 10] b have a3: "to_child_index 0x8421 10 = Inr 2"
    unfolding p10 by simp
  have mem: "(3, 15) \<in> set (NodeChildrenRange 0x8421)" by (simp add: range_8421)
  from t have "\<forall>p \<in> set (NodeChildrenRange 0x8421).
      to_child_index 0x8421 (ucast (snd p)) = Inr (ucast (fst p))" by blast
  from this [rule_format, OF mem] have a4: "to_child_index 0x8421 15 = Inr 3" by simp
  from a1 a2 b a3 mem a4 show ?thesis by simp
qed

section \<open>Proofs: node sizes\<close>

lemma ucast_of_nat_u32_u64:
  "n < 2 ^ 32 \<Longrightarrow> (ucast (word_of_nat n :: u32) :: u64) = word_of_nat n"
proof (rule unsigned_word_eqI [where ?'a = nat])
  assume n: "n < 2 ^ 32"
  then have "unat (word_of_nat n :: u32) = n" by (simp add: unat_of_nat)
  moreover have "n < 2 ^ 64" using n by simp
  ultimately show "unat (ucast (word_of_nat n :: u32) :: u64) = unat (word_of_nat n :: u64)"
    by (simp add: unsigned_ucast_eq take_bit_nat_eq_self unat_of_nat)
qed

lemma ucast_u32_u64_of_nat: "(ucast (w :: u32) :: u64) = word_of_nat (unat w)"
  by simp

lemma ucast_u8_u64_of_nat: "(ucast (w :: u8) :: u64) = word_of_nat (unat w)"
  by simp

lemma calculate_node_size_of_nat:
  "calculate_node_size (word_of_nat n) (word_of_nat t) (word_of_nat v) (word_of_nat p) (word_of_nat d)
     = word_of_nat (sizeof_Node
         + n * (2 + sizeof_compact_virtual_chunk_offset_t + sizeof_compact_virtual_chunk_offset_t
                  + 8 + sizeof_chunk_offset_t + sizeof_pointer)
         + t + v + p + d)"
  by (simp add: calculate_node_size_def algebra_simps)

lemma mem_size_sum:
  "next_data N + number_of_children N * sizeof_pointer
     = sizeof_Node
         + number_of_children N
             * (2 + sizeof_compact_virtual_chunk_offset_t + sizeof_compact_virtual_chunk_offset_t
                  + 8 + sizeof_chunk_offset_t + sizeof_pointer)
         + child_data_total N + unat (value_len N) + path_bytes N + unat (data_len N)"
  by (simp add: next_data_def child_data_def child_arrays_size_def algebra_simps)

lemma max_size_lt: "max_size < 2 ^ 32"
  by (simp add: max_size_def max_disk_size_def max_number_of_children_def KECCAK256_SIZE_def)

text \<open>
  Claim C8: \<open>calculate_node_size\<close> is the 16-byte header, plus for each child 2 bytes of
  child data offset, two 5-byte compact offsets, 8 bytes of minimum version, one
  \<^verbatim>\<open>chunk_offset_t\<close> and one pointer, plus the child data, value, path and inline data
  sizes: in \<^verbatim>\<open>size_t\<close> arithmetic for all arguments, and as a sum of natural numbers
  whenever that sum fits in 64 bits. For every well-formed node it equals
  \<open>get_mem_size\<close>.
\<close>

theorem calculate_node_size_identity:
  "calculate_node_size n t v p d
     = 16 + n * (2 + 2 * 5 + 8 + word_of_nat sizeof_chunk_offset_t + word_of_nat sizeof_pointer)
         + t + v + p + d
   \<and> (16 + unat n * (2 + 2 * 5 + 8 + sizeof_chunk_offset_t + sizeof_pointer)
         + unat t + unat v + unat p + unat d < 2 ^ 64 \<longrightarrow>
       unat (calculate_node_size n t v p d)
         = 16 + unat n * (2 + 2 * 5 + 8 + sizeof_chunk_offset_t + sizeof_pointer)
             + unat t + unat v + unat p + unat d)
   \<and> (valid_node N \<longrightarrow>
       calculate_node_size (word_of_nat (popcount (node_mask N)))
           (word_of_nat (child_data_total N)) (ucast (value_len N))
           (word_of_nat (path_bytes N)) (ucast (data_len N))
         = ucast (get_mem_size N))"
proof (intro conjI impI)
  show w: "calculate_node_size n t v p d
     = 16 + n * (2 + 2 * 5 + 8 + word_of_nat sizeof_chunk_offset_t + word_of_nat sizeof_pointer)
         + t + v + p + d"
    by (simp add: calculate_node_size_def sizeof_Node_def
          sizeof_compact_virtual_chunk_offset_t_def algebra_simps)
  {
    let ?s = "16 + unat n * (2 + 2 * 5 + 8 + sizeof_chunk_offset_t + sizeof_pointer)
         + unat t + unat v + unat p + unat d"
    assume lt: "?s < 2 ^ 64"
    have "calculate_node_size n t v p d
        = calculate_node_size (word_of_nat (unat n)) (word_of_nat (unat t)) (word_of_nat (unat v))
            (word_of_nat (unat p)) (word_of_nat (unat d))" by simp
    also have "\<dots> = word_of_nat ?s"
      unfolding calculate_node_size_of_nat
      by (simp add: sizeof_Node_def sizeof_compact_virtual_chunk_offset_t_def)
    finally have "unat (calculate_node_size n t v p d) = ?s mod 2 ^ 64"
      by (simp only: unat_of_nat) simp
    with lt show "unat (calculate_node_size n t v p d) = ?s" by simp
  }
  {
    assume v: "valid_node N"
    then have len: "next_data N + number_of_children N * sizeof_pointer = length N"
      and "length N \<le> max_size" by (simp_all add: valid_node_def)
    with max_size_lt have lt: "next_data N + number_of_children N * sizeof_pointer < 2 ^ 32"
      by simp
    have "calculate_node_size (word_of_nat (popcount (node_mask N)))
           (word_of_nat (child_data_total N)) (ucast (value_len N))
           (word_of_nat (path_bytes N)) (ucast (data_len N))
        = word_of_nat (next_data N + number_of_children N * sizeof_pointer)"
      unfolding ucast_u32_u64_of_nat ucast_u8_u64_of_nat calculate_node_size_of_nat mem_size_sum
      by (simp add: number_of_children_def)
    also have "\<dots> = ucast (get_mem_size N)"
      unfolding get_mem_size_def by (rule ucast_of_nat_u32_u64 [OF lt, symmetric])
    finally show "calculate_node_size (word_of_nat (popcount (node_mask N)))
           (word_of_nat (child_data_total N)) (ucast (value_len N))
           (word_of_nat (path_bytes N)) (ucast (data_len N))
         = ucast (get_mem_size N)" .
  }
qed

text \<open>
  Claim C2: \<open>get_disk_size\<close> is \<open>get_mem_size\<close> minus \<open>popcount(mask)\<close> pointers: in
  32-bit arithmetic for every node image, and as natural numbers for every well-formed
  node.
\<close>

theorem disk_size_vs_mem_size:
  "get_disk_size N = get_mem_size N - word_of_nat (popcount (node_mask N) * sizeof_pointer)
   \<and> (valid_node N \<longrightarrow>
        unat (get_disk_size N) = unat (get_mem_size N) - popcount (node_mask N) * sizeof_pointer)"
proof (intro conjI impI)
  show "get_disk_size N = get_mem_size N - word_of_nat (popcount (node_mask N) * sizeof_pointer)"
    by (simp add: get_disk_size_def get_mem_size_def number_of_children_def)
  assume v: "valid_node N"
  then have len: "next_data N + number_of_children N * sizeof_pointer = length N"
    and "length N \<le> max_size" by (simp_all add: valid_node_def)
  with max_size_lt have lt: "next_data N + number_of_children N * sizeof_pointer < 2 ^ 32"
    by simp
  then have lt': "next_data N < 2 ^ 32" by simp
  have m: "unat (get_mem_size N) = next_data N + number_of_children N * sizeof_pointer"
    unfolding get_mem_size_def using lt by (simp only: unat_of_nat) simp
  have d: "unat (get_disk_size N) = next_data N"
    unfolding get_disk_size_def using lt' by (simp only: unat_of_nat) simp
  show "unat (get_disk_size N) = unat (get_mem_size N) - popcount (node_mask N) * sizeof_pointer"
    unfolding m d by (simp add: number_of_children_def)
qed

lemma header_fields:
  "node_mask (b0 # b1 # r) = le_word [b0, b1]"
  "bitpacked (b0 # b1 # b2 # r) = b2"
  "path_nibble_index_end (b0 # b1 # b2 # b3 # r) = b3"
  "value_len (b0 # b1 # b2 # b3 # b4 # b5 # b6 # b7 # r) = le_word [b4, b5, b6, b7]"
  by (simp_all add: node_mask_def bitpacked_def path_nibble_index_end_def value_len_def)

lemma extension_node_fields:
  "node_mask extension_node = 0x0100" "bitpacked extension_node = 2" "path_nibble_index_end extension_node = 2" "value_len extension_node = 0"
  "length extension_node = 85"
  by (simp_all add: extension_node_def header_fields)

lemma popcount_0x0100: "popcount (0x0100 :: u16) = 1"
  by (simp add: popcount_def bit_numeral_rec upt_rec)

lemma extension_node_layout:
  "number_of_children extension_node = 1" "path_bytes extension_node = 1" "data_len extension_node = 0" "child_data extension_node = 45"
  "child_data_total extension_node = 32" "next_data extension_node = 77"
proof -
  show n: "number_of_children extension_node = 1" by (simp add: number_of_children_def extension_node_fields popcount_0x0100)
  show p: "path_bytes extension_node = 1"
    by (simp add: path_bytes_def extension_node_fields path_nibble_index_start_def)
  show d: "data_len extension_node = 0" by (simp add: data_len_def extension_node_fields)
  show c: "child_data extension_node = 45"
    by (simp add: child_data_def child_arrays_size_def n p d extension_node_fields sizeof_Node_def
          sizeof_compact_virtual_chunk_offset_t_def sizeof_chunk_offset_t_def)
  show t: "child_data_total extension_node = 32"
    by (simp add: child_data_total_def n c extension_node_fields sizeof_pointer_def)
  show "next_data extension_node = 77" by (simp add: next_data_def c t)
qed

lemma extension_node_valid: "valid_node extension_node"
  by (simp add: valid_node_def extension_node_layout extension_node_fields sizeof_Node_def sizeof_pointer_def
        max_size_def max_disk_size_def)

theorem disk_size_vs_mem_size_witness:
  "valid_node extension_node \<and> get_disk_size extension_node = 77 \<and> get_mem_size extension_node = 85
   \<and> popcount (node_mask extension_node) * sizeof_pointer = 8
   \<and> unat (get_disk_size extension_node) = unat (get_mem_size extension_node) - popcount (node_mask extension_node) * sizeof_pointer"
  using disk_size_vs_mem_size [of extension_node] extension_node_valid
  by (simp add: get_disk_size_def get_mem_size_def extension_node_layout extension_node_fields popcount_0x0100 sizeof_pointer_def)

theorem calculate_node_size_identity_witness:
  "16 + unat (1 :: u64) * (2 + 2 * 5 + 8 + sizeof_chunk_offset_t + sizeof_pointer)
         + unat (32 :: u64) + unat (0 :: u64) + unat (1 :: u64) + unat (0 :: u64) < 2 ^ 64
   \<and> unat (calculate_node_size 1 32 0 1 0) = 85
   \<and> valid_node extension_node
   \<and> calculate_node_size (word_of_nat (popcount (node_mask extension_node)))
           (word_of_nat (child_data_total extension_node)) (ucast (value_len extension_node))
           (word_of_nat (path_bytes extension_node)) (ucast (data_len extension_node))
         = ucast (get_mem_size extension_node)
   \<and> get_mem_size extension_node = 85"
  using calculate_node_size_identity [of 1 32 0 1 0 extension_node] extension_node_valid
  by (simp add: sizeof_chunk_offset_t_def sizeof_pointer_def get_mem_size_def extension_node_layout)

lemma MAX_VALUE_LEN_OF_LEAF_value: "MAX_VALUE_LEN_OF_LEAF = 268435376"
  by (simp add: MAX_VALUE_LEN_OF_LEAF_def calculate_node_size_def max_disk_size_def
        KECCAK256_SIZE_def sizeof_Node_def)

lemma popcount_0: "popcount (0 :: 'a::len word) = 0"
  by (simp add: popcount_def)

lemma leaf_disk_size:
  assumes "node_mask N = 0"
  shows "get_disk_size N
      = word_of_nat (sizeof_Node + path_bytes N + unat (value_len N) + unat (data_len N))"
  using assms
  by (simp add: get_disk_size_def next_data_def child_data_def child_data_total_def
        child_arrays_size_def number_of_children_def popcount_0)

text \<open>
  Claim C9, as amended: a leaf with a value of \<^verbatim>\<open>MAX_VALUE_LEN_OF_LEAF\<close> bytes, a path
  of 64 nibbles and no inline data has a disk size of \<open>max_disk_size - KECCAK256_SIZE\<close>,
  not \<open>max_disk_size\<close>: the constant reserves 32 bytes for inline data, and a node with
  32 bytes of inline data reaches \<open>max_disk_size\<close>. Construction with one more byte of
  value fails; with \<^verbatim>\<open>MAX_VALUE_LEN_OF_LEAF\<close> bytes it allocates
  \<open>max_disk_size - KECCAK256_SIZE\<close> bytes.
\<close>

theorem max_leaf_disk_size:
  "(node_mask N = 0 \<and> value_len N = ucast MAX_VALUE_LEN_OF_LEAF
      \<and> path_nibble_index_end N = 64 \<and> \<not> path_nibble_index_start N \<and> data_len N = 0
      \<longrightarrow> unat (get_disk_size N) = max_disk_size - KECCAK256_SIZE)
   \<and> (node_mask N = 0 \<and> value_len N = ucast MAX_VALUE_LEN_OF_LEAF
      \<and> path_nibble_index_end N = 64 \<and> \<not> path_nibble_index_start N \<and> data_len N = 32
      \<longrightarrow> unat (get_disk_size N) = max_disk_size)
   \<and> make_node_size 0 0 (word_of_nat KECCAK256_SIZE) (Some (MAX_VALUE_LEN_OF_LEAF + 1)) 0
        = Inl Assert_value_len_le_max
   \<and> make_node_size 0 0 (word_of_nat KECCAK256_SIZE) (Some MAX_VALUE_LEN_OF_LEAF) 0
        = Inr (word_of_nat (max_disk_size - KECCAK256_SIZE))"
proof (intro conjI impI)
  {
    assume a: "node_mask N = 0 \<and> value_len N = ucast MAX_VALUE_LEN_OF_LEAF
      \<and> path_nibble_index_end N = 64 \<and> \<not> path_nibble_index_start N \<and> data_len N = 0"
    then have pb: "path_bytes N = 32" by (simp add: path_bytes_def)
    from a have vl: "unat (value_len N) = 268435376"
      by (simp add: MAX_VALUE_LEN_OF_LEAF_value)
    from a have m: "node_mask N = 0" and dl: "data_len N = 0" by simp_all
    show "unat (get_disk_size N) = max_disk_size - KECCAK256_SIZE"
      by (simp add: leaf_disk_size [OF m] pb vl dl sizeof_Node_def max_disk_size_def
            KECCAK256_SIZE_def)
  }
  {
    assume a: "node_mask N = 0 \<and> value_len N = ucast MAX_VALUE_LEN_OF_LEAF
      \<and> path_nibble_index_end N = 64 \<and> \<not> path_nibble_index_start N \<and> data_len N = 32"
    then have pb: "path_bytes N = 32" by (simp add: path_bytes_def)
    from a have vl: "unat (value_len N) = 268435376"
      by (simp add: MAX_VALUE_LEN_OF_LEAF_value)
    from a have m: "node_mask N = 0" and dl: "data_len N = 32" by simp_all
    show "unat (get_disk_size N) = max_disk_size"
      by (simp add: leaf_disk_size [OF m] pb vl dl sizeof_Node_def max_disk_size_def)
  }
  show "make_node_size 0 0 (word_of_nat KECCAK256_SIZE) (Some (MAX_VALUE_LEN_OF_LEAF + 1)) 0
        = Inl Assert_value_len_le_max"
    by (simp add: make_node_size_def MAX_VALUE_LEN_OF_LEAF_value)
  show "make_node_size 0 0 (word_of_nat KECCAK256_SIZE) (Some MAX_VALUE_LEN_OF_LEAF) 0
        = Inr (word_of_nat (max_disk_size - KECCAK256_SIZE))"
    by (simp add: make_node_size_def MAX_VALUE_LEN_OF_LEAF_value popcount_0 calculate_node_size_def
          max_data_len_def max_size_def max_disk_size_def KECCAK256_SIZE_def sizeof_Node_def
          max_number_of_children_def)
qed

lemma le_word_MAX: "(le_word [0xB0, 0xFF, 0xFF, 0x0F] :: u32) = 268435376"
  by simp

lemma max_leaf_fields:
  "node_mask (max_leaf 0) = 0" "value_len (max_leaf 0) = ucast MAX_VALUE_LEN_OF_LEAF"
  "path_nibble_index_end (max_leaf 0) = 64" "\<not> path_nibble_index_start (max_leaf 0)"
  "data_len (max_leaf 0) = 0" "has_value (max_leaf 0)" "length (max_leaf 0) = 268435424"
  by (simp_all add: max_leaf_def header_fields MAX_VALUE_LEN_OF_LEAF_value
        path_nibble_index_start_def data_len_def has_value_def)

text \<open>
  Claim C9 as stated fails at the leaf \<open>max_leaf 0\<close>: it is well-formed, has the
  header of the claim, and its disk size is \<open>max_disk_size - 32\<close>.
\<close>

theorem max_leaf_disk_size_counterexample:
  "node_mask (max_leaf 0) = 0 \<and> value_len (max_leaf 0) = ucast MAX_VALUE_LEN_OF_LEAF
   \<and> path_nibble_index_end (max_leaf 0) = 64 \<and> \<not> path_nibble_index_start (max_leaf 0)
   \<and> data_len (max_leaf 0) = 0 \<and> valid_node (max_leaf 0)
   \<and> unat (get_disk_size (max_leaf 0)) \<noteq> max_disk_size"
proof -
  have pb: "path_bytes (max_leaf 0) = 32" by (simp add: path_bytes_def max_leaf_fields)
  have ds: "get_disk_size (max_leaf 0) = 268435424"
    by (simp add: leaf_disk_size max_leaf_fields pb MAX_VALUE_LEN_OF_LEAF_value sizeof_Node_def)
  have nd: "next_data (max_leaf 0) = 268435424"
    by (simp add: next_data_def child_data_def child_data_total_def child_arrays_size_def
          number_of_children_def popcount_0 max_leaf_fields pb MAX_VALUE_LEN_OF_LEAF_value
          sizeof_Node_def)
  have v: "valid_node (max_leaf 0)"
    by (simp add: valid_node_def nd max_leaf_fields number_of_children_def popcount_0
          sizeof_Node_def max_size_def max_disk_size_def)
  show ?thesis using v by (simp add: max_leaf_fields ds max_disk_size_def)
qed

theorem max_leaf_disk_size_witness:
  "(node_mask (max_leaf 0) = 0 \<and> value_len (max_leaf 0) = ucast MAX_VALUE_LEN_OF_LEAF
      \<and> path_nibble_index_end (max_leaf 0) = 64 \<and> \<not> path_nibble_index_start (max_leaf 0)
      \<and> data_len (max_leaf 0) = 0)
   \<and> unat (get_disk_size (max_leaf 0)) = max_disk_size - KECCAK256_SIZE
   \<and> (node_mask (max_leaf 32) = 0 \<and> value_len (max_leaf 32) = ucast MAX_VALUE_LEN_OF_LEAF
      \<and> path_nibble_index_end (max_leaf 32) = 64 \<and> \<not> path_nibble_index_start (max_leaf 32)
      \<and> data_len (max_leaf 32) = 32)
   \<and> unat (get_disk_size (max_leaf 32)) = max_disk_size"
proof -
  have f32: "node_mask (max_leaf 32) = 0 \<and> value_len (max_leaf 32) = ucast MAX_VALUE_LEN_OF_LEAF
      \<and> path_nibble_index_end (max_leaf 32) = 64 \<and> \<not> path_nibble_index_start (max_leaf 32)
      \<and> data_len (max_leaf 32) = 32"
    by (simp add: max_leaf_def header_fields MAX_VALUE_LEN_OF_LEAF_value
        path_nibble_index_start_def data_len_def)
  show ?thesis
    using max_leaf_disk_size [of "max_leaf 0"] max_leaf_disk_size [of "max_leaf 32"] f32
    by (simp add: max_leaf_fields)
qed

section \<open>Proofs: allocation, deserialization and copy\<close>

lemma make_ok:
  assumes "sizeof_Node \<le> b" and "b \<le> max_size"
    and "X = replicate sizeof_Node 0 @ map uninit [sizeof_Node..<b]"
  shows "make uninit h b = Inr (h @ [X], length h)" and "length X = b"
  using assms by (simp_all add: make_def)

lemma copy_n_fresh:
  "c \<le> length first \<Longrightarrow> c \<le> length X \<Longrightarrow>
     copy_n first c (h @ [X]) (length h) = Inr (h @ [take c first @ drop c X])"
  by (simp add: copy_n_def)

lemma memset_fresh:
  "0 < len \<Longrightarrow> off + len \<le> length X \<Longrightarrow>
     memset (h @ [X]) (length h) off v len
       = Inr (h @ [take off X @ replicate len v @ drop (off + len) X])"
  by (simp add: memset_def)

lemma memset_fresh_oob:
  "0 < len \<Longrightarrow> length X < off + len \<Longrightarrow>
     memset (h @ [X]) (length h) off v len = Inl Out_of_bounds"
  by (simp add: memset_def)

lemma memset_none: "memset h q off v 0 = Inr h"
  by (simp add: memset_def)

text \<open>The layout depends on the header and on the length of the allocation only.\<close>

lemma take_take_le: "k \<le> n \<Longrightarrow> take k (take n xs) = take k xs"
  by (simp add: min_def)

lemma header_cong:
  assumes "take 16 A = take 16 B"
  shows "node_mask A = node_mask B" "bitpacked A = bitpacked B"
    "path_nibble_index_end A = path_nibble_index_end B" "value_len A = value_len B"
proof -
  have t: "take k (drop j A) = take k (drop j B)" if "j + k \<le> 16" for j k
  proof -
    have "take k (drop j A) = take k (drop j (take 16 A))"
      using that by (simp add: drop_take min_def)
    also have "\<dots> = take k (drop j (take 16 B))" by (simp only: assms)
    also have "\<dots> = take k (drop j B)" using that by (simp add: drop_take min_def)
    finally show ?thesis .
  qed
  from t [of 0 2] show "node_mask A = node_mask B" by (simp add: node_mask_def)
  from t [of 2 1] show "bitpacked A = bitpacked B" by (simp add: bitpacked_def)
  from t [of 3 1] show "path_nibble_index_end A = path_nibble_index_end B"
    by (simp add: path_nibble_index_end_def)
  from t [of 4 4] show "value_len A = value_len B" by (simp add: value_len_def)
qed

lemma layout_cong:
  assumes h: "take 16 A = take 16 B" and l: "length A = length B"
  shows "number_of_children A = number_of_children B" "child_data A = child_data B"
    "next_data A = next_data B" "get_mem_size A = get_mem_size B"
    "get_disk_size A = get_disk_size B"
proof -
  note hc = header_cong [OF h]
  show n: "number_of_children A = number_of_children B"
    by (simp add: number_of_children_def hc)
  have p: "path_bytes A = path_bytes B"
    by (simp add: path_bytes_def path_nibble_index_start_def hc)
  have d: "data_len A = data_len B" by (simp add: data_len_def hc)
  show c: "child_data A = child_data B"
    by (simp add: child_data_def child_arrays_size_def n p d hc)
  show nd: "next_data A = next_data B"
    by (simp add: next_data_def child_data_total_def n c l)
  show "get_mem_size A = get_mem_size B" by (simp add: get_mem_size_def nd n)
  show "get_disk_size A = get_disk_size B" by (simp add: get_disk_size_def nd)
qed

lemma child_data_ge: "sizeof_Node \<le> child_data N"
  by (simp add: child_data_def)

lemma next_data_ge: "child_data N \<le> next_data N"
  by (simp add: next_data_def)

lemma next_data_children:
  assumes "number_of_children N \<noteq> 0"
  shows "length N - number_of_children N * sizeof_pointer \<le> next_data N"
    and "next_data N + number_of_children N * sizeof_pointer \<le> length N \<Longrightarrow>
           next_data N + number_of_children N * sizeof_pointer = length N"
  using assms by (auto simp: next_data_def child_data_total_def)

lemma popcount_le16: "popcount (m :: u16) \<le> 16"
  using length_filter_le [of "bit m" "[0..<16]"] by (simp add: popcount_def)

lemma ucast_of_nat_u64_u32:
  assumes "x < 2 ^ 32"
  shows "(ucast (word_of_nat x :: u64) :: u32) = word_of_nat x"
proof (rule unsigned_word_eqI [where ?'a = nat])
  from assms have "x < 2 ^ 64" by simp
  then have "unat (word_of_nat x :: u64) = x" by (simp add: unat_of_nat)
  then have "unat (ucast (word_of_nat x :: u64) :: u32) = take_bit 32 x"
    by (simp add: unsigned_ucast_eq)
  also have "\<dots> = unat (word_of_nat x :: u32)"
    using assms by (simp add: unat_of_nat take_bit_nat_eq_self)
  finally show "unat (ucast (word_of_nat x :: u64) :: u32) = unat (word_of_nat x :: u32)" .
qed

text \<open>The arithmetic of \<open>alloc_size\<close> and of the \<^verbatim>\<open>copy_n\<close> count.\<close>

lemma alloc_size_unat:
  fixes d :: u32
  assumes d4: "4 \<le> unat d" and dm: "unat d \<le> max_disk_size" and n: "n \<le> 16"
  shows "unat (ucast ((ucast d :: u64) + ucast (word_of_nat n :: u32) * word_of_nat sizeof_pointer
                - word_of_nat disk_size_bytes) :: u32)
         = unat d - 4 + n * sizeof_pointer"
    and "unat (d - word_of_nat disk_size_bytes) = unat d - 4"
proof -
  have dlt: "unat d \<le> 268435456" using dm by (simp add: max_disk_size_def)
  have un: "(ucast (word_of_nat n :: u32) :: u64) = word_of_nat n"
    using n by (intro ucast_of_nat_u32_u64) simp
  have "(ucast d :: u64) + ucast (word_of_nat n :: u32) * word_of_nat sizeof_pointer
                - word_of_nat disk_size_bytes
        = word_of_nat (unat d) + word_of_nat n * word_of_nat sizeof_pointer - word_of_nat 4"
    unfolding un by (simp add: disk_size_bytes_def)
  also have "\<dots> = word_of_nat (unat d - 4 + n * sizeof_pointer)"
    using d4 by (simp add: of_nat_diff)
  finally have e: "(ucast d :: u64) + ucast (word_of_nat n :: u32) * word_of_nat sizeof_pointer
                - word_of_nat disk_size_bytes = word_of_nat (unat d - 4 + n * sizeof_pointer)" .
  have lt: "unat d - 4 + n * sizeof_pointer < 2 ^ 32"
    using dlt n by (simp add: sizeof_pointer_def)
  have "(ucast (word_of_nat (unat d - 4 + n * sizeof_pointer) :: u64) :: u32)
      = word_of_nat (unat d - 4 + n * sizeof_pointer)"
    by (rule ucast_of_nat_u64_u32 [OF lt])
  then show "unat (ucast ((ucast d :: u64) + ucast (word_of_nat n :: u32) * word_of_nat sizeof_pointer
                - word_of_nat disk_size_bytes) :: u32)
         = unat d - 4 + n * sizeof_pointer"
    unfolding e using lt by (simp only: unat_of_nat) simp
  have "d - word_of_nat disk_size_bytes = word_of_nat (unat d) - word_of_nat 4"
    by (simp add: disk_size_bytes_def)
  also have "\<dots> = word_of_nat (unat d - 4)" using d4 by (simp add: of_nat_diff)
  finally show "unat (d - word_of_nat disk_size_bytes) = unat d - 4"
    using dlt by (simp only: unat_of_nat) simp
qed

lemma deserialize_body:
  fixes d :: u32 and m :: u16
  assumes len4: "4 \<le> length src"
    and d_def: "d = le_word (take 4 src)"
    and fr: "unat d \<le> max_bytes" "unat d \<le> max_disk_size"
    and big: "sizeof_Node + disk_size_bytes \<le> unat d" and buf: "unat d \<le> length src"
    and m_def: "m = le_word (take 2 (drop 4 src))"
    and D_def: "D = take (unat d - 4) (drop 4 src) @ replicate (popcount m * sizeof_pointer) 0"
  shows "deserialize_node_from_buffer uninit h src max_bytes =
     (if popcount m \<noteq> 0 \<and> length D < next_data D + popcount m * sizeof_pointer
        then Inl Out_of_bounds
      else if get_mem_size D \<noteq> word_of_nat (length D) then Inl Assert_alloc_size_eq_mem_size
      else Inr (h @ [D], length h))"
    and "node_mask D = m"
    and "length D = unat d - 4 + popcount m * sizeof_pointer"
proof -
  define n where "n = popcount m"
  define c where "c = unat d - 4"
  define a where "a = c + n * sizeof_pointer"
  define alloc :: u32 where "alloc = ucast ((ucast d :: u64)
      + ucast (word_of_nat n :: u32) * word_of_nat sizeof_pointer - word_of_nat disk_size_bytes)"
  define X where "X = replicate sizeof_Node 0 @ map uninit [sizeof_Node..<a]"
  define U where "U = take c (drop 4 src) @ drop c X"
  have n16: "n \<le> 16" unfolding n_def by (rule popcount_le16)
  have d20: "20 \<le> unat d" using big by (simp add: sizeof_Node_def disk_size_bytes_def)
  then have d4: "4 \<le> unat d" by simp
  have dpos: "0 < d" using d20 by (simp add: word_less_nat_alt)
  note al = alloc_size_unat [OF d4 fr(2) n16]
  have ua: "unat alloc = a" unfolding alloc_def a_def c_def by (rule al(1))
  have uc: "unat (d - word_of_nat disk_size_bytes) = c" unfolding c_def by (rule al(2))
  have un: "unat (word_of_nat n :: u32) = n" using n16 by (simp add: unat_of_nat)
  have c16: "16 \<le> c" using d20 by (simp add: c_def)
  have a_ge: "sizeof_Node \<le> a" using c16 by (simp add: a_def sizeof_Node_def)
  have a_le: "a \<le> max_size"
    using fr(2) n16 d4
    by (simp add: a_def c_def max_size_def max_number_of_children_def KECCAK256_SIZE_def
          sizeof_pointer_def)
  have lenX: "length X = a" by (rule make_ok(2) [OF a_ge a_le X_def])
  have c_src: "c \<le> length (drop 4 src)" using buf by (simp add: c_def)
  have c_a: "c \<le> length X" by (simp add: lenX a_def)
  show lenD: "length D = unat d - 4 + popcount m * sizeof_pointer"
    using c_src by (simp add: D_def c_def)
  then have lenD': "length D = a" by (simp add: a_def c_def n_def)
  have lenU: "length U = a" using c_src c_a by (simp add: U_def lenX)
  have "take 2 D = take 2 (take c (drop 4 src))"
    using c16 c_src by (simp add: D_def c_def)
  also have "\<dots> = take 2 (drop 4 src)" using c16 by (simp add: min_def)
  finally show mD: "node_mask D = m" by (simp add: node_mask_def m_def)
  then have nD: "number_of_children D = n" by (simp add: number_of_children_def n_def)
  have hdr: "take 16 U = take 16 D"
    using c16 c_src by (simp add: U_def D_def c_def)
  have takeU: "take c U = take c (drop 4 src)" using c_src by (simp add: U_def)
  note lc = layout_cong [OF hdr, unfolded lenU lenD', OF refl]
  have l1: "unaligned_load_u32 src = Inr d"
    using len4 by (simp add: unaligned_load_u32_def d_def)
  have l2: "unaligned_load_u16 (drop disk_size_bytes src) = Inr m"
    using d20 buf by (simp add: unaligned_load_u16_def m_def disk_size_bytes_def)
  have walloc: "alloc = word_of_nat (length D)"
    unfolding lenD' ua [symmetric] by simp
  have raw_alloc: "(ucast ((ucast d :: u64)
      + ucast (word_of_nat (popcount m) :: u32) * word_of_nat sizeof_pointer
      - word_of_nat disk_size_bytes) :: u32) = word_of_nat (length D)"
    using walloc by (simp only: alloc_def n_def)
  have unat_lenD: "unat (word_of_nat (length D) :: u32) = a"
    using ua by (simp only: walloc)
  have raw_un: "unat (word_of_nat (popcount m) :: u32) = n" using un by (simp only: n_def)
  have mk': "make uninit h a = Inr (h @ [X], length h)" by (rule make_ok(1) [OF a_ge a_le X_def])
  have cp': "copy_n (drop disk_size_bytes src) c (h @ [X]) (length h) = Inr (h @ [U])"
    using copy_n_fresh [OF c_src c_a, of h] by (simp add: disk_size_bytes_def U_def)
  have unf: "deserialize_node_from_buffer uninit h src max_bytes =
      (case memset (h @ [U]) (length h) (next_data U) 0 (n * sizeof_pointer) of
         Inl e \<Rightarrow> Inl e
       | Inr h2 \<Rightarrow>
           if alloc \<noteq> get_mem_size (h2 ! length h) then Inl Assert_alloc_size_eq_mem_size
           else Inr (h2, length h))"
    unfolding deserialize_node_from_buffer_def Let_def walloc
    using fr dpos
    by (simp add: l1 l2 raw_alloc unat_lenD raw_un mk' uc cp' cong: sum.case_cong)
  show "deserialize_node_from_buffer uninit h src max_bytes =
     (if popcount m \<noteq> 0 \<and> length D < next_data D + popcount m * sizeof_pointer
        then Inl Out_of_bounds
      else if get_mem_size D \<noteq> word_of_nat (length D) then Inl Assert_alloc_size_eq_mem_size
      else Inr (h @ [D], length h))"
  proof (cases "n = 0")
    case True
    then have "U = D" using c_src c_a by (simp add: U_def D_def lenX a_def c_def n_def)
    with True show ?thesis
      unfolding unf by (simp add: memset_none n_def [symmetric] walloc)
  next
    case False
    then have pos: "0 < n * sizeof_pointer" by (simp add: sizeof_pointer_def)
    show ?thesis
    proof (cases "length D < next_data D + n * sizeof_pointer")
      case True
      then have "length U < next_data U + n * sizeof_pointer" by (simp add: lc lenU lenD')
      from memset_fresh_oob [OF pos this] show ?thesis
        unfolding unf using True False by (simp add: n_def [symmetric])
    next
      case le: False
      then have le': "next_data D + n * sizeof_pointer \<le> length D" by simp
      from False have nz: "number_of_children D \<noteq> 0" by (simp add: nD)
      from next_data_children(2) [OF nz] le' have eq: "next_data D + n * sizeof_pointer = length D"
        by (simp add: nD)
      then have off: "next_data D = c" by (simp add: lenD' a_def)
      then have offU: "next_data U = c" by (simp add: lc)
      have leU: "next_data U + n * sizeof_pointer \<le> length U"
        by (simp add: offU lenU a_def)
      have same: "take (next_data U) U @ replicate (n * sizeof_pointer) 0
                    @ drop (next_data U + n * sizeof_pointer) U = D"
        unfolding offU takeU using lenU by (simp add: D_def c_def n_def a_def)
      have gm: "get_mem_size D = word_of_nat (length D)"
        by (simp only: get_mem_size_def nD eq)
      show ?thesis
        unfolding unf memset_fresh [OF pos leU] same
        using le False by (simp add: n_def [symmetric] walloc gm)
    qed
  qed
qed

lemma make_errors: "make uninit h b = Inl e \<Longrightarrow> e = Debug_assert_bytes_le_max_size \<or> e = Out_of_bounds"
  by (auto simp: make_def split: if_splits)

lemma copy_n_errors: "copy_n f c h q = Inl e \<Longrightarrow> e = Out_of_bounds"
  by (auto simp: copy_n_def split: if_splits)

lemma memset_errors: "memset h q off v len = Inl e \<Longrightarrow> e = Out_of_bounds"
  by (auto simp: memset_def split: if_splits)

lemma load_u16_errors: "unaligned_load_u16 p = Inl e \<Longrightarrow> e = Out_of_bounds"
  by (auto simp: unaligned_load_u16_def split: if_splits)

lemma deserialize_first_assertion:
  "(deserialize_node_from_buffer uninit h src max_bytes = Inl Assert_disk_size_le_max_bytes)
     = (4 \<le> length src \<and> max_bytes < unat (le_word (take 4 src) :: u32))"
  unfolding deserialize_node_from_buffer_def Let_def
  by (auto simp: unaligned_load_u32_def
        split: sum.splits if_splits prod.splits
        dest: make_errors copy_n_errors memset_errors load_u16_errors)

lemma deserialize_second_assertion:
  "(deserialize_node_from_buffer uninit h src max_bytes = Inl Assert_disk_size_range)
     = (4 \<le> length src \<and> unat (le_word (take 4 src) :: u32) \<le> max_bytes
        \<and> ((le_word (take 4 src) :: u32) = 0
            \<or> max_disk_size < unat (le_word (take 4 src) :: u32)))"
  unfolding deserialize_node_from_buffer_def Let_def
  by (auto simp: unaligned_load_u32_def word_greater_zero_iff
        split: sum.splits if_splits prod.splits
        dest: make_errors copy_n_errors memset_errors load_u16_errors)

lemma unat_sub_small:
  fixes d :: u32
  assumes "unat d < 4"
  shows "unat (d - word_of_nat disk_size_bytes) = 2 ^ 32 + unat d - 4"
proof -
  have "unat (d - 4) = (if unat (4 :: u32) \<le> unat d then unat d - unat (4 :: u32)
      else unat d + 2 ^ LENGTH(32) - unat (4 :: u32))"
    by (rule unat_sub_if')
  with assms show ?thesis by (simp add: disk_size_bytes_def)
qed

lemma deserialize_success_imp:
  fixes d :: u32
  assumes ok: "deserialize_node_from_buffer uninit h src max_bytes = Inr r"
    and d_def: "d = le_word (take 4 src)"
  shows "4 \<le> length src" "0 < d" "unat d \<le> max_bytes" "unat d \<le> max_disk_size"
    "sizeof_Node + disk_size_bytes \<le> unat d" "unat d \<le> length src"
proof -
  define m :: u16 where "m = le_word (take 2 (drop 4 src))"
  define n :: u32 where "n = word_of_nat (popcount m)"
  define alloc :: u32 where "alloc = ucast ((ucast d :: u64)
      + ucast n * word_of_nat sizeof_pointer - word_of_nat disk_size_bytes)"
  define c where "c = unat (d - word_of_nat disk_size_bytes)"
  from ok show len4: "4 \<le> length src"
    by (auto simp: deserialize_node_from_buffer_def unaligned_load_u32_def split: if_splits)
  then have l1: "unaligned_load_u32 src = Inr d" by (simp add: unaligned_load_u32_def d_def)
  from ok show dpos: "0 < d" and dmb: "unat d \<le> max_bytes" and dmd: "unat d \<le> max_disk_size"
    by (auto simp: deserialize_node_from_buffer_def l1 split: if_splits)
  from ok dpos dmb dmd have len6: "2 \<le> length (drop 4 src)"
    by (auto simp: deserialize_node_from_buffer_def Let_def l1 unaligned_load_u16_def
          disk_size_bytes_def split: if_splits)
  then have l2: "unaligned_load_u16 (drop disk_size_bytes src) = Inr m"
    by (simp add: unaligned_load_u16_def m_def disk_size_bytes_def)
  have un: "unat n = popcount m"
    using popcount_le16 [of m] by (simp add: n_def unat_of_nat)
  define A where "A = replicate sizeof_Node 0 @ map uninit [sizeof_Node..<unat alloc]"
  from ok dpos dmb dmd obtain h1 h2 where
    mk: "make uninit h (unat alloc) = Inr (h @ [A], length h)"
    and cp: "copy_n (drop disk_size_bytes src) c (h @ [A]) (length h) = Inr h1"
    and ms: "memset h1 (length h) (next_data (h1 ! length h)) 0 (unat n * sizeof_pointer) = Inr h2"
    unfolding deserialize_node_from_buffer_def Let_def l1
    by (auto simp: l2 n_def [symmetric] alloc_def [symmetric] c_def [symmetric] make_def
          A_def [symmetric] split: sum.splits if_splits prod.splits)
  from mk have a16: "sizeof_Node \<le> unat alloc" and amax: "unat alloc \<le> max_size"
    by (auto simp: make_def split: if_splits)
  have lenA: "length A = unat alloc" using a16 by (simp add: A_def)
  from cp have c_src: "c \<le> length (drop 4 src)" and c_a: "c \<le> unat alloc"
    and h1: "h1 = h @ [take c (drop 4 src) @ drop c A]"
    by (auto simp: copy_n_def disk_size_bytes_def lenA split: if_splits)
  have d4: "4 \<le> unat d"
  proof (rule ccontr)
    assume "\<not> 4 \<le> unat d"
    then have "unat d < 4" by simp
    then have "c = 2 ^ 32 + unat d - 4" unfolding c_def by (rule unat_sub_small)
    then have "max_size < c"
      by (simp add: max_size_def max_disk_size_def max_number_of_children_def KECCAK256_SIZE_def)
    with c_a amax show False by simp
  qed
  note al = alloc_size_unat [OF d4 dmd popcount_le16 [of m]]
  have ua: "unat alloc = unat d - 4 + popcount m * sizeof_pointer"
    unfolding alloc_def n_def by (rule al(1))
  have uc: "c = unat d - 4" unfolding c_def by (rule al(2))
  from c_src d4 len4 show "unat d \<le> length src" by (simp add: uc)
  show "sizeof_Node + disk_size_bytes \<le> unat d"
  proof (rule ccontr)
    assume "\<not> sizeof_Node + disk_size_bytes \<le> unat d"
    then have small: "c < sizeof_Node" using d4 by (simp add: uc disk_size_bytes_def)
    have npos: "0 < popcount m * sizeof_pointer"
    proof (rule ccontr)
      assume "\<not> 0 < popcount m * sizeof_pointer"
      then have "popcount m * sizeof_pointer = 0" by simp
      with a16 small show False by (simp add: ua uc)
    qed
    define X where "X = take c (drop 4 src) @ drop c A"
    have lenX: "length X = c + popcount m * sizeof_pointer"
      using c_src by (simp add: X_def lenA ua uc)
    from ms npos have "next_data X + popcount m * sizeof_pointer \<le> length X"
      by (auto simp: memset_def h1 un X_def [symmetric] split: if_splits)
    then have "next_data X \<le> c" by (simp add: lenX)
    moreover have "sizeof_Node \<le> next_data X"
      using child_data_ge [of X] next_data_ge [of X] by simp
    ultimately show False using small by simp
  qed
qed

text \<open>
  Claim C6, as amended. For a buffer that holds the 4-byte prefix \<open>d\<close>:
  \<^verbatim>\<open>deserialize_node_from_buffer\<close> fails at its first assertion iff \<open>d > max_bytes\<close>, and
  at its second iff \<open>d \<le> max_bytes\<close> and (\<open>d = 0\<close> or \<open>d > max_disk_size\<close>). It returns
  a node iff both pass, the body of \<open>d - 4\<close> bytes holds a whole header and lies within
  the buffer, and the size the loaded header describes is the allocation size (the
  zeroing of \<^verbatim>\<open>next[]\<close> stays inside the allocation and
  \<^verbatim>\<open>alloc_size == get_mem_size()\<close>). The node returned is freshly allocated, at an
  address no node of the heap has, and holds the body followed by \<open>popcount(mask)\<close>
  zeroed pointers, whatever the allocated memory held before. In every other case the
  function fails as well.
\<close>

theorem deserialize_outcomes:
  fixes d :: u32 and m :: u16
  assumes len4: "4 \<le> length src"
    and d_def: "d = le_word (take 4 src)"
    and m_def: "m = le_word (take 2 (drop 4 src))"
    and D_def: "D = take (unat d - 4) (drop 4 src) @ replicate (popcount m * sizeof_pointer) 0"
  shows "((deserialize_node_from_buffer uninit h src max_bytes = Inl Assert_disk_size_le_max_bytes)
            = (max_bytes < unat d))
    \<and> ((deserialize_node_from_buffer uninit h src max_bytes = Inl Assert_disk_size_range)
            = (unat d \<le> max_bytes \<and> (d = 0 \<or> max_disk_size < unat d)))
    \<and> ((deserialize_node_from_buffer uninit h src max_bytes = Inr r)
            = (0 < d \<and> unat d \<le> max_bytes \<and> unat d \<le> max_disk_size
               \<and> sizeof_Node + disk_size_bytes \<le> unat d \<and> unat d \<le> length src
               \<and> (popcount m = 0 \<or> next_data D + popcount m * sizeof_pointer \<le> length D)
               \<and> get_mem_size D = word_of_nat (length D)
               \<and> r = (h @ [D], length h)))"
proof (intro conjI)
  show "(deserialize_node_from_buffer uninit h src max_bytes = Inl Assert_disk_size_le_max_bytes)
            = (max_bytes < unat d)"
    using len4 by (simp add: deserialize_first_assertion d_def)
  show "(deserialize_node_from_buffer uninit h src max_bytes = Inl Assert_disk_size_range)
            = (unat d \<le> max_bytes \<and> (d = 0 \<or> max_disk_size < unat d))"
    using len4 by (simp add: deserialize_second_assertion d_def)
  show "(deserialize_node_from_buffer uninit h src max_bytes = Inr r)
            = (0 < d \<and> unat d \<le> max_bytes \<and> unat d \<le> max_disk_size
               \<and> sizeof_Node + disk_size_bytes \<le> unat d \<and> unat d \<le> length src
               \<and> (popcount m = 0 \<or> next_data D + popcount m * sizeof_pointer \<le> length D)
               \<and> get_mem_size D = word_of_nat (length D)
               \<and> r = (h @ [D], length h))"
    (is "?L = ?R")
  proof
    assume L: ?L
    note s = deserialize_success_imp [OF L d_def]
    note b = deserialize_body(1) [OF len4 d_def s(3) s(4) s(5) s(6) m_def D_def,
        where h = h and uninit = uninit]
    from L b s show ?R by (auto split: if_splits)
  next
    assume R: ?R
    then have fr: "unat d \<le> max_bytes" "unat d \<le> max_disk_size"
      "sizeof_Node + disk_size_bytes \<le> unat d" "unat d \<le> length src" by simp_all
    note b = deserialize_body(1) [OF len4 d_def fr m_def D_def, where h = h and uninit = uninit]
    from R show ?L unfolding b by auto
  qed
qed

lemma leaf_buffer_facts:
  "length leaf_buffer = 27" "(le_word (take 4 leaf_buffer) :: u32) = 27"
  "(le_word (take 2 (drop 4 leaf_buffer)) :: u16) = 0"
  "take (unat (27 :: u32) - 4) (drop 4 leaf_buffer) = drop 4 leaf_buffer"
  by (simp_all add: leaf_buffer_def)

lemma leaf_node_layout:
  "next_data (drop 4 leaf_buffer) = 23" "get_mem_size (drop 4 leaf_buffer) = 23"
  "length (drop 4 leaf_buffer) = 23" "number_of_children (drop 4 leaf_buffer) = 0"
proof -
  have f: "node_mask (drop 4 leaf_buffer) = 0" "bitpacked (drop 4 leaf_buffer) = 1"
    "path_nibble_index_end (drop 4 leaf_buffer) = 4" "value_len (drop 4 leaf_buffer) = 5"
    by (simp_all add: leaf_buffer_def header_fields)
  show n: "number_of_children (drop 4 leaf_buffer) = 0"
    by (simp add: number_of_children_def f popcount_0)
  have p: "path_bytes (drop 4 leaf_buffer) = 2"
    by (simp add: path_bytes_def f path_nibble_index_start_def)
  have d: "data_len (drop 4 leaf_buffer) = 0" by (simp add: data_len_def f)
  show nd: "next_data (drop 4 leaf_buffer) = 23"
    by (simp add: next_data_def child_data_def child_data_total_def child_arrays_size_def
          n p d f sizeof_Node_def)
  show "get_mem_size (drop 4 leaf_buffer) = 23" by (simp add: get_mem_size_def nd n)
  show "length (drop 4 leaf_buffer) = 23" by (simp add: leaf_buffer_def)
qed

theorem deserialize_outcomes_witness:
  "4 \<le> length leaf_buffer
   \<and> deserialize_node_from_buffer stale_memory [] leaf_buffer 27 = Inr ([drop 4 leaf_buffer], 0)
   \<and> deserialize_node_from_buffer stale_memory [] leaf_buffer 26 = Inl Assert_disk_size_le_max_bytes"
proof -
  have D: "drop 4 leaf_buffer
      = take (unat (27 :: u32) - 4) (drop 4 leaf_buffer) @ replicate (popcount (0 :: u16) * sizeof_pointer) 0"
    by (simp add: leaf_buffer_facts popcount_0)
  have l: "4 \<le> length leaf_buffer" by (simp add: leaf_buffer_facts)
  from deserialize_outcomes [OF l leaf_buffer_facts(2) [symmetric] leaf_buffer_facts(3) [symmetric] D,
      where uninit = stale_memory and h = "[]" and max_bytes = 27 and r = "([drop 4 leaf_buffer], 0)"]
  have a: "deserialize_node_from_buffer stale_memory [] leaf_buffer 27 = Inr ([drop 4 leaf_buffer], 0)"
    by (simp add: leaf_buffer_facts leaf_node_layout popcount_0 max_disk_size_def sizeof_Node_def
          disk_size_bytes_def)
  from deserialize_outcomes [OF l leaf_buffer_facts(2) [symmetric] leaf_buffer_facts(3) [symmetric] D,
      where uninit = stale_memory and h = "[]" and max_bytes = 26 and r = "([drop 4 leaf_buffer], 0)"]
  have b: "deserialize_node_from_buffer stale_memory [] leaf_buffer 26 = Inl Assert_disk_size_le_max_bytes"
    by simp
  from l a b show ?thesis by simp
qed

text \<open>
  Claim C6 as stated fails at \<open>truncated_buffer\<close> with \<open>max_bytes = 20\<close>: the prefix 20 is
  neither 0 nor larger than \<open>max_bytes\<close> or \<open>max_disk_size\<close>, yet the function fails, at
  its final assertion, because the header describes 23 bytes and 16 were allocated.
\<close>

theorem deserialize_outcomes_counterexample:
  "unaligned_load_u32 truncated_buffer = Inr 20
   \<and> (20 :: u32) \<noteq> 0 \<and> unat (20 :: u32) \<le> 20 \<and> unat (20 :: u32) \<le> max_disk_size
   \<and> deserialize_node_from_buffer stale_memory [] truncated_buffer 20 = Inl Assert_alloc_size_eq_mem_size"
proof -
  have l: "4 \<le> length truncated_buffer" by (simp add: truncated_buffer_def)
  have d: "(20 :: u32) = le_word (take 4 truncated_buffer)" by (simp add: truncated_buffer_def)
  have m: "(0 :: u16) = le_word (take 2 (drop 4 truncated_buffer))"
    by (simp add: truncated_buffer_def)
  have D: "drop 4 truncated_buffer
      = take (unat (20 :: u32) - 4) (drop 4 truncated_buffer)
          @ replicate (popcount (0 :: u16) * sizeof_pointer) 0"
    by (simp add: truncated_buffer_def popcount_0)
  have f: "node_mask (drop 4 truncated_buffer) = 0" "bitpacked (drop 4 truncated_buffer) = 1"
    "path_nibble_index_end (drop 4 truncated_buffer) = 4" "value_len (drop 4 truncated_buffer) = 5"
    by (simp_all add: truncated_buffer_def header_fields)
  have n: "number_of_children (drop 4 truncated_buffer) = 0"
    by (simp add: number_of_children_def f popcount_0)
  have p: "path_bytes (drop 4 truncated_buffer) = 2"
    by (simp add: path_bytes_def f path_nibble_index_start_def)
  have dl: "data_len (drop 4 truncated_buffer) = 0" by (simp add: data_len_def f)
  have nd: "next_data (drop 4 truncated_buffer) = 23"
    by (simp add: next_data_def child_data_def child_data_total_def child_arrays_size_def
          n p dl f sizeof_Node_def)
  have gm: "get_mem_size (drop 4 truncated_buffer) = 23" by (simp add: get_mem_size_def nd n)
  have len: "length (drop 4 truncated_buffer) = 16" by (simp add: truncated_buffer_def)
  have "deserialize_node_from_buffer stale_memory [] truncated_buffer 20 =
     (if popcount (0 :: u16) \<noteq> 0
          \<and> length (drop 4 truncated_buffer)
              < next_data (drop 4 truncated_buffer) + popcount (0 :: u16) * sizeof_pointer
        then Inl Out_of_bounds
      else if get_mem_size (drop 4 truncated_buffer)
                \<noteq> word_of_nat (length (drop 4 truncated_buffer))
        then Inl Assert_alloc_size_eq_mem_size
      else Inr ([] @ [drop 4 truncated_buffer], length ([] :: heap)))"
    by (rule deserialize_body(1) [OF l d _ _ _ _ m D])
       (simp_all add: max_disk_size_def sizeof_Node_def disk_size_bytes_def truncated_buffer_def)
  then have b: "deserialize_node_from_buffer stale_memory [] truncated_buffer 20
      = Inl Assert_alloc_size_eq_mem_size"
    by (simp add: popcount_0 gm len [simplified])
  show ?thesis
    using b by (simp add: unaligned_load_u32_def truncated_buffer_def max_disk_size_def)
qed

lemma bit_le_word:
  "bit (le_word bs :: 'a::len word) j
     = (j < LENGTH('a) \<and> j div 8 < length bs \<and> bit (bs ! (j div 8)) (j mod 8))"
proof (induction bs arbitrary: j)
  case Nil
  then show ?case by simp
next
  case (Cons b bs)
  show ?case
  proof (cases "j < 8")
    case True
    then show ?thesis
      by (auto simp: bit_or_iff bit_ucast_iff bit_push_bit_iff dest: bit_imp_le_length)
  next
    case False
    then have d: "j div 8 = Suc ((j - 8) div 8)" and m: "j mod 8 = (j - 8) mod 8"
      by (simp_all add: le_div_geq le_mod_geq)
    have nb: "\<not> bit b j" using False by (auto dest: bit_imp_le_length)
    show ?thesis
      using False by (auto simp: bit_or_iff bit_ucast_iff bit_push_bit_iff Cons.IH d m nb)
  qed
qed

lemma le_word_le_bytes:
  "LENGTH('a::len) \<le> 8 * k \<Longrightarrow> le_word (le_bytes k (w :: 'a word)) = w"
proof (rule bit_word_eqI)
  fix j assume k: "LENGTH('a) \<le> 8 * k" and j: "j < LENGTH('a)"
  then have jk: "j div 8 < k" by (simp add: less_mult_imp_div_less mult.commute)
  have "8 * (j div 8) + j mod 8 = j" by simp
  then show "bit (le_word (le_bytes k w) :: 'a word) j = bit w j"
    using j jk by (simp add: bit_le_word le_bytes_def bit_ucast_iff bit_drop_bit_eq)
qed

lemma length_le_bytes: "length (le_bytes k w) = k"
  by (simp add: le_bytes_def)

lemma valid_node_facts:
  assumes "valid_node N"
  shows "sizeof_Node \<le> next_data N" "next_data N < 2 ^ 32"
    "unat (get_disk_size N) = next_data N"
    "length N = next_data N + number_of_children N * sizeof_pointer"
    "get_mem_size N = word_of_nat (length N)" "unat (get_mem_size N) = length N"
    "length N \<le> max_size"
proof -
  from assms have len: "next_data N + number_of_children N * sizeof_pointer = length N"
    and mx: "length N \<le> max_size" by (simp_all add: valid_node_def)
  show "length N \<le> max_size" by (rule mx)
  show "sizeof_Node \<le> next_data N" using child_data_ge [of N] next_data_ge [of N] by simp
  from len mx max_size_lt have lt: "length N < 2 ^ 32" by simp
  with len show nlt: "next_data N < 2 ^ 32" by simp
  then show "unat (get_disk_size N) = next_data N"
    unfolding get_disk_size_def by (simp only: unat_of_nat) simp
  from len show "length N = next_data N + number_of_children N * sizeof_pointer" by simp
  show gm: "get_mem_size N = word_of_nat (length N)" by (simp only: get_mem_size_def len)
  show "unat (get_mem_size N) = length N" unfolding gm using lt by (simp only: unat_of_nat) simp
qed

text \<open>A well-formed node with its \<^verbatim>\<open>next[]\<close> region zeroed.\<close>

lemma zeroed_next_layout:
  assumes v: "valid_node N"
  defines "k \<equiv> next_data N" and "z \<equiv> number_of_children N * sizeof_pointer"
  defines "D \<equiv> take k N @ replicate z 0"
  shows "length D = length N" "take k D = take k N" "drop k D = replicate z 0"
    "next_data D = k" "number_of_children D = number_of_children N" "valid_node D"
    "node_mask D = node_mask N" "drop k N = replicate z 0 \<longrightarrow> D = N"
proof -
  note f = valid_node_facts [OF v]
  have kl: "k \<le> length N" using f(4) by (simp add: k_def)
  show l: "length D = length N" using f(4) kl by (simp add: D_def k_def z_def)
  show "take k D = take k N" using kl by (simp add: D_def)
  show "drop k D = replicate z 0" using kl by (simp add: D_def)
  have k16: "16 \<le> k" using f(1) by (simp add: k_def sizeof_Node_def)
  have h: "take 16 D = take 16 N" using k16 kl by (simp add: D_def min_def)
  note lc = layout_cong [OF h l]
  show "next_data D = k" by (simp add: lc k_def)
  show "number_of_children D = number_of_children N" by (rule lc(1))
  show "node_mask D = node_mask N" by (rule header_cong(1) [OF h])
  show "valid_node D" using v by (simp add: valid_node_def l lc)
  show "drop k N = replicate z 0 \<longrightarrow> D = N"
  proof
    assume "drop k N = replicate z 0"
    then have "D = take k N @ drop k N" by (simp add: D_def)
    then show "D = N" by simp
  qed
qed

lemma max_leaf_32_layout:
  "node_mask (max_leaf 32) = 0" "number_of_children (max_leaf 32) = 0"
  "path_bytes (max_leaf 32) = 32" "value_len (max_leaf 32) = 268435376"
  "data_len (max_leaf 32) = 32" "length (max_leaf 32) = 268435456"
  "child_data (max_leaf 32) = 268435456" "next_data (max_leaf 32) = 268435456"
  "valid_node (max_leaf 32)" "unat (get_disk_size (max_leaf 32)) = max_disk_size"
proof -
  show m: "node_mask (max_leaf 32) = 0" by (simp add: max_leaf_def header_fields)
  show n: "number_of_children (max_leaf 32) = 0"
    by (simp add: number_of_children_def m popcount_0)
  have e: "path_nibble_index_end (max_leaf 32) = 64" "\<not> path_nibble_index_start (max_leaf 32)"
    by (simp_all add: max_leaf_def header_fields path_nibble_index_start_def)
  show p: "path_bytes (max_leaf 32) = 32" by (simp add: path_bytes_def e)
  show v: "value_len (max_leaf 32) = 268435376" by (simp add: max_leaf_def header_fields)
  show d: "data_len (max_leaf 32) = 32" by (simp add: max_leaf_def header_fields data_len_def)
  show l: "length (max_leaf 32) = 268435456" by (simp add: max_leaf_def)
  show c: "child_data (max_leaf 32) = 268435456"
    by (simp add: child_data_def child_arrays_size_def n p v d sizeof_Node_def)
  show nd: "next_data (max_leaf 32) = 268435456"
    by (simp add: next_data_def child_data_total_def n c)
  show "valid_node (max_leaf 32)"
    by (simp add: valid_node_def nd n l sizeof_Node_def max_size_def max_disk_size_def)
  show "unat (get_disk_size (max_leaf 32)) = max_disk_size"
    by (simp add: get_disk_size_def nd max_disk_size_def)
qed

text \<open>The bytes the serializer writes at offset 0 when the buffer holds them all.\<close>

lemma serialize_whole:
  assumes "4 \<le> unat d" and "unat d \<le> b"
  shows "serialize_node_to_buffer b N d 0 = le_bytes 4 d @ take (unat d - 4) N"
  using assms
  by (simp add: serialize_node_to_buffer_def disk_size_bytes_def length_le_bytes)

lemma serialize_length:
  "length (serialize_node_to_buffer b N d 0) = min b (4 + min (unat d - 4) (length N))"
  by (auto simp: serialize_node_to_buffer_def disk_size_bytes_def length_le_bytes min_def)

lemma serialize_prefix:
  assumes "4 \<le> length (serialize_node_to_buffer b N d 0)"
  shows "le_word (take 4 (serialize_node_to_buffer b N d 0)) = d"
proof -
  from assms have "4 \<le> b" by (simp add: serialize_length)
  then have "take 4 (serialize_node_to_buffer b N d 0) = le_bytes 4 d"
    by (simp add: serialize_node_to_buffer_def length_le_bytes min_def)
  then show ?thesis by (simp add: le_word_le_bytes)
qed

text \<open>
  What a successful deserialization of serialized bytes returns, for any
  \<open>bytes_to_write\<close> and any \<open>disk_size\<close>.
\<close>

lemma deserialize_serialized:
  fixes d :: u32
  assumes ok: "deserialize_node_from_buffer uninit h (serialize_node_to_buffer b N d 0) mb = Inr r"
  defines "D \<equiv> take (unat d - 4) N @ replicate (number_of_children N * sizeof_pointer) 0"
  shows "sizeof_Node + disk_size_bytes \<le> unat d" "unat d \<le> b" "unat d - 4 \<le> length N"
    "r = (h @ [D], length h)" "get_mem_size D = word_of_nat (length D)"
    "take 16 D = take 16 N"
proof -
  define src where "src = serialize_node_to_buffer b N d 0"
  have ok': "deserialize_node_from_buffer uninit h src mb = Inr r" using ok by (simp add: src_def)
  have l4: "4 \<le> length src"
    using ok' by (auto simp: deserialize_node_from_buffer_def unaligned_load_u32_def split: if_splits)
  have dd: "d = le_word (take 4 src)"
    using serialize_prefix [of b N d] l4 by (simp add: src_def)
  note s = deserialize_success_imp [OF ok' dd]
  show big: "sizeof_Node + disk_size_bytes \<le> unat d" by (rule s(5))
  then have d20: "20 \<le> unat d" by (simp add: sizeof_Node_def disk_size_bytes_def)
  from s(6) have len: "unat d \<le> min b (4 + min (unat d - 4) (length N))"
    by (simp add: src_def serialize_length)
  then show db: "unat d \<le> b" by simp
  from len d20 show cN: "unat d - 4 \<le> length N" by (auto simp: min_def split: if_splits)
  have d4: "4 \<le> unat d" using d20 by simp
  have src: "src = le_bytes 4 d @ take (unat d - 4) N"
    unfolding src_def by (rule serialize_whole [OF d4 db])
  have body: "drop 4 src = take (unat d - 4) N" by (simp add: src length_le_bytes)
  have c16: "16 \<le> unat d - 4" using d20 by simp
  have "take 2 (drop 4 src) = take 2 N" using c16 by (simp add: body min_def)
  then have m: "node_mask N = le_word (take 2 (drop 4 src))" by (simp add: node_mask_def)
  have Dsrc: "D = take (unat d - 4) (drop 4 src)
                @ replicate (popcount (node_mask N) * sizeof_pointer) 0"
    by (simp add: D_def body number_of_children_def)
  note b = deserialize_body(1) [OF l4 dd s(3) s(4) s(5) s(6) m Dsrc, where h = h and uninit = uninit]
  from ok' b show "r = (h @ [D], length h)" by (auto split: if_splits)
  from ok' b show "get_mem_size D = word_of_nat (length D)" by (auto split: if_splits)
  show "take 16 D = take 16 N" using c16 cN by (simp add: D_def min_def)
qed

lemma round_trip_ok:
  assumes v: "valid_node N"
    and ds: "unat disk_size = unat (get_disk_size N) + disk_size_bytes"
    and dm: "unat disk_size \<le> max_disk_size"
    and mb: "unat disk_size \<le> max_bytes"
  shows "deserialize_node_from_buffer uninit h
               (serialize_node_to_buffer (unat disk_size) N disk_size 0) max_bytes
             = Inr (h @ [take (next_data N) N @ replicate (number_of_children N * sizeof_pointer) 0],
                    length h)"
proof -
  define k where "k = next_data N"
  define z where "z = number_of_children N * sizeof_pointer"
  define D where "D = take k N @ replicate z 0"
  define src where "src = serialize_node_to_buffer (unat disk_size) N disk_size 0"
  note f = valid_node_facts [OF v]
  note zl = zeroed_next_layout [OF v, folded k_def z_def, folded D_def]
  have uk: "unat (get_disk_size N) = k" by (simp add: f(3) k_def)
  have ud: "unat disk_size = k + 4" using ds by (simp add: uk disk_size_bytes_def)
  have kl: "k \<le> length N" using f(4) by (simp add: k_def)
  have k16: "16 \<le> k" using f(1) by (simp add: k_def sizeof_Node_def)
  have src: "src = le_bytes 4 disk_size @ take k N"
    by (simp add: src_def serialize_node_to_buffer_def ud disk_size_bytes_def length_le_bytes kl)
  have len_src: "length src = k + 4" using kl by (simp add: src length_le_bytes)
  have l4: "4 \<le> length src" by (simp add: len_src)
  have d: "disk_size = le_word (take 4 src)"
    by (simp add: src length_le_bytes le_word_le_bytes)
  have "take 2 (drop 4 src) = take 2 N" using k16 kl by (simp add: src length_le_bytes min_def)
  then have m: "node_mask N = le_word (take 2 (drop 4 src))" by (simp add: node_mask_def)
  have Dsrc: "D = take (unat disk_size - 4) (drop 4 src)
                @ replicate (popcount (node_mask N) * sizeof_pointer) 0"
    using kl by (simp add: D_def src length_le_bytes ud z_def number_of_children_def)
  have big: "sizeof_Node + disk_size_bytes \<le> unat disk_size"
    using k16 by (simp add: ud sizeof_Node_def disk_size_bytes_def)
  have buf: "unat disk_size \<le> length src" by (simp add: ud len_src)
  note b = deserialize_body(1) [OF l4 d mb dm big buf m Dsrc, where h = h and uninit = uninit]
  have vD: "valid_node D" by (rule zl(6))
  note fD = valid_node_facts [OF vD]
  have nD: "popcount (node_mask N) = number_of_children D"
    by (simp add: zl(7) number_of_children_def)
  have "deserialize_node_from_buffer uninit h src max_bytes = Inr (h @ [D], length h)"
    unfolding b nD using fD(4) fD(5) by simp
  then show ?thesis by (simp add: src_def D_def k_def z_def)
qed

lemma round_trip_too_big:
  assumes v: "valid_node N"
    and ds: "unat disk_size = unat (get_disk_size N) + disk_size_bytes"
    and dm: "max_disk_size < unat disk_size"
    and mb: "unat disk_size \<le> max_bytes"
  shows "deserialize_node_from_buffer uninit h
               (serialize_node_to_buffer (unat disk_size) N disk_size 0) max_bytes
             = Inl Assert_disk_size_range"
proof -
  define src where "src = serialize_node_to_buffer (unat disk_size) N disk_size 0"
  note f = valid_node_facts [OF v]
  have d4: "4 \<le> unat disk_size" using ds by (simp add: disk_size_bytes_def)
  have kl: "unat disk_size - 4 \<le> length N" using ds f(3) f(4) by (simp add: disk_size_bytes_def)
  have l4: "4 \<le> length src" using d4 kl by (simp add: src_def serialize_length)
  have d: "le_word (take 4 src) = disk_size"
    unfolding src_def by (rule serialize_prefix [OF l4 [unfolded src_def]])
  show ?thesis
    using l4 d dm mb by (simp add: deserialize_second_assertion src_def [symmetric])
qed

lemma round_trip_forced:
  fixes d :: u32
  assumes v: "valid_node N"
    and ok: "deserialize_node_from_buffer uninit h (serialize_node_to_buffer b N d 0) mb = Inr r"
    and len: "length (fst r ! snd r) = length N"
  shows "unat d = unat (get_disk_size N) + disk_size_bytes"
proof -
  note f = valid_node_facts [OF v]
  note s = deserialize_serialized [OF ok]
  from s(4) have "fst r ! snd r
      = take (unat d - 4) N @ replicate (number_of_children N * sizeof_pointer) 0"
    by simp
  with len s(3) have "unat d - 4 + number_of_children N * sizeof_pointer = length N" by simp
  with f(4) have "unat d - 4 = next_data N" by simp
  with s(1) show ?thesis by (simp add: f(3) disk_size_bytes_def sizeof_Node_def)
qed

lemma child_data_cong:
  assumes h: "take 16 A = take 16 B"
  shows "number_of_children A = number_of_children B" "child_data A = child_data B"
proof -
  note hc = header_cong [OF h]
  show n: "number_of_children A = number_of_children B"
    by (simp add: number_of_children_def hc)
  have p: "path_bytes A = path_bytes B"
    by (simp add: path_bytes_def path_nibble_index_start_def hc)
  have d: "data_len A = data_len B" by (simp add: data_len_def hc)
  show "child_data A = child_data B"
    by (simp add: child_data_def child_arrays_size_def n p d hc)
qed

text \<open>
  The leaf \<open>max_leaf 32\<close> serialised with a \<open>disk_size\<close> within \<open>max_disk_size\<close>: the
  body is cut short and the final assertion of the deserializer fires.
\<close>

lemma max_leaf_short_prefix:
  fixes d :: u32
  assumes big: "sizeof_Node + disk_size_bytes \<le> unat d" and dm: "unat d \<le> max_disk_size"
    and mb: "unat d \<le> mb"
  shows "deserialize_node_from_buffer uninit h
           (serialize_node_to_buffer (unat d) (max_leaf 32) d 0) mb
         = Inl Assert_alloc_size_eq_mem_size"
proof -
  define N where "N = max_leaf 32"
  define src where "src = serialize_node_to_buffer (unat d) N d 0"
  define D where "D = take (unat d - 4) N"
  have d20: "20 \<le> unat d" using big by (simp add: sizeof_Node_def disk_size_bytes_def)
  then have d4: "4 \<le> unat d" and c16: "16 \<le> unat d - 4" by simp_all
  have lN: "length N = 268435456" by (simp add: N_def max_leaf_32_layout)
  have cN: "unat d - 4 \<le> length N" using dm by (simp add: lN max_disk_size_def)
  have src: "src = le_bytes 4 d @ take (unat d - 4) N"
    unfolding src_def by (rule serialize_whole [OF d4 order_refl])
  have len_src: "length src = unat d" using cN d4 by (simp add: src length_le_bytes)
  have l4: "4 \<le> length src" using d4 by (simp add: len_src)
  have dd: "d = le_word (take 4 src)" by (simp add: src length_le_bytes le_word_le_bytes)
  have buf: "unat d \<le> length src" by (simp add: len_src)
  have body: "drop 4 src = D" by (simp add: src length_le_bytes D_def)
  have hdr: "take 16 D = take 16 N" using c16 by (simp add: D_def min_def)
  have "take 2 D = take 2 N" using c16 by (simp add: D_def min_def)
  then have m: "(0 :: u16) = le_word (take 2 (drop 4 src))"
    using max_leaf_32_layout(1) by (simp add: body node_mask_def N_def)
  have Dsrc: "D = take (unat d - 4) (drop 4 src) @ replicate (popcount (0 :: u16) * sizeof_pointer) 0"
    by (simp add: body D_def popcount_0)
  note b = deserialize_body(1) [OF l4 dd mb dm big buf m Dsrc, where h = h and uninit = uninit]
  note cc = child_data_cong [OF hdr]
  have n: "number_of_children D = 0" by (simp add: cc N_def max_leaf_32_layout)
  have "next_data D = 268435456"
    by (simp add: next_data_def child_data_total_def n cc N_def max_leaf_32_layout)
  then have gm: "unat (get_mem_size D) = 268435456" by (simp add: get_mem_size_def n)
  have lenD: "length D = unat d - 4" using cN by (simp add: D_def)
  have "unat (word_of_nat (length D) :: u32) = unat d - 4"
    unfolding lenD using dm by (simp add: unat_of_nat max_disk_size_def)
  with gm dm d4 have ne: "get_mem_size D \<noteq> word_of_nat (length D)"
    by (auto simp: max_disk_size_def)
  show ?thesis
    using b ne by (simp add: popcount_0 src_def N_def)
qed

text \<open>
  Claim C1, as amended. A well-formed node \<open>N\<close> is serialised at offset 0 with the
  \<^verbatim>\<open>disk_size\<close> that covers the 4-byte prefix and the bytes of \<open>N\<close> before its
  \<^verbatim>\<open>next[]\<close> region, \<open>get_disk_size() + 4\<close>, and deserialised with \<open>max_bytes\<close> no
  smaller.

  \<^item> When \<open>disk_size\<close> is within \<open>max_disk_size\<close>, the result is a freshly allocated node
    of the length of \<open>N\<close> that equals \<open>N\<close> in every byte before \<^verbatim>\<open>next[]\<close> and whose
    \<^verbatim>\<open>next[]\<close> region is all zero, whatever the allocated memory held before; when the
    \<^verbatim>\<open>next[]\<close> pointers of \<open>N\<close> are null, it equals \<open>N\<close> byte for byte.
  \<^item> When \<open>disk_size\<close> exceeds \<open>max_disk_size\<close>, that is for a node of more than
    \<open>max_disk_size - 4\<close> bytes on disk, deserialisation fails at the assertion
    \<^verbatim>\<open>disk_size <= max_disk_size\<close>.
  \<^item> No other \<open>disk_size\<close> gives a node of the size of \<open>N\<close> back, for any
    \<open>bytes_to_write\<close> and \<open>max_bytes\<close>.
\<close>

theorem serialize_deserialize_round_trip:
  assumes v: "valid_node N"
    and ds: "unat disk_size = unat (get_disk_size N) + disk_size_bytes"
    and mb: "unat disk_size \<le> max_bytes"
  shows "(unat disk_size \<le> max_disk_size \<longrightarrow>
            (\<exists>D. deserialize_node_from_buffer uninit h
                     (serialize_node_to_buffer (unat disk_size) N disk_size 0) max_bytes
                   = Inr (h @ [D], length h)
               \<and> length D = length N
               \<and> take (unat (get_disk_size N)) D = take (unat (get_disk_size N)) N
               \<and> drop (unat (get_disk_size N)) D
                    = replicate (number_of_children N * sizeof_pointer) 0
               \<and> (drop (unat (get_disk_size N)) N
                      = replicate (number_of_children N * sizeof_pointer) 0
                    \<longrightarrow> D = N)))
    \<and> (max_disk_size < unat disk_size \<longrightarrow>
          deserialize_node_from_buffer uninit h
              (serialize_node_to_buffer (unat disk_size) N disk_size 0) max_bytes
            = Inl Assert_disk_size_range)
    \<and> (\<forall>b d mb' r.
          deserialize_node_from_buffer uninit h (serialize_node_to_buffer b N d 0) mb' = Inr r
            \<and> length (fst r ! snd r) = length N
          \<longrightarrow> d = disk_size)"
proof (intro conjI impI allI)
  assume dm: "unat disk_size \<le> max_disk_size"
  define k where "k = next_data N"
  define z where "z = number_of_children N * sizeof_pointer"
  define D where "D = take k N @ replicate z 0"
  note f = valid_node_facts [OF v]
  note zl = zeroed_next_layout [OF v, folded k_def z_def, folded D_def]
  have uk: "unat (get_disk_size N) = k" by (simp add: f(3) k_def)
  have "deserialize_node_from_buffer uninit h
            (serialize_node_to_buffer (unat disk_size) N disk_size 0) max_bytes
          = Inr (h @ [D], length h)"
    unfolding D_def k_def z_def by (rule round_trip_ok [OF v ds dm mb])
  with zl show "\<exists>D. deserialize_node_from_buffer uninit h
                     (serialize_node_to_buffer (unat disk_size) N disk_size 0) max_bytes
                   = Inr (h @ [D], length h)
               \<and> length D = length N
               \<and> take (unat (get_disk_size N)) D = take (unat (get_disk_size N)) N
               \<and> drop (unat (get_disk_size N)) D
                    = replicate (number_of_children N * sizeof_pointer) 0
               \<and> (drop (unat (get_disk_size N)) N
                      = replicate (number_of_children N * sizeof_pointer) 0
                    \<longrightarrow> D = N)"
    unfolding uk z_def by blast
next
  assume dm: "max_disk_size < unat disk_size"
  show "deserialize_node_from_buffer uninit h
              (serialize_node_to_buffer (unat disk_size) N disk_size 0) max_bytes
            = Inl Assert_disk_size_range"
    by (rule round_trip_too_big [OF v ds dm mb])
next
  fix b d mb' r
  assume a: "deserialize_node_from_buffer uninit h (serialize_node_to_buffer b N d 0) mb' = Inr r
            \<and> length (fst r ! snd r) = length N"
  from a have ok: "deserialize_node_from_buffer uninit h (serialize_node_to_buffer b N d 0) mb'
      = Inr r" and len: "length (fst r ! snd r) = length N" by simp_all
  from round_trip_forced [OF v ok len] ds have "unat d = unat disk_size" by simp
  then show "d = disk_size" by (rule unsigned_word_eqI [where ?'a = nat])
qed

theorem serialize_deserialize_round_trip_witness:
  "valid_node extension_node
   \<and> unat (81 :: u32) = unat (get_disk_size extension_node) + disk_size_bytes
   \<and> unat (81 :: u32) \<le> 81 \<and> unat (81 :: u32) \<le> max_disk_size
   \<and> deserialize_node_from_buffer stale_memory []
         (serialize_node_to_buffer (unat (81 :: u32)) extension_node 81 0) 81
       = Inr ([take 77 extension_node @ replicate 8 0], 0)
   \<and> length (fst ([take 77 extension_node @ replicate 8 0], 0 :: nat)
               ! snd ([take 77 extension_node @ replicate 8 0], 0 :: nat))
       = length extension_node
   \<and> valid_node (max_leaf 32)
   \<and> unat (268435460 :: u32) = unat (get_disk_size (max_leaf 32)) + disk_size_bytes
   \<and> unat (268435460 :: u32) \<le> 268435460 \<and> max_disk_size < unat (268435460 :: u32)
   \<and> deserialize_node_from_buffer stale_memory []
         (serialize_node_to_buffer (unat (268435460 :: u32)) (max_leaf 32) 268435460 0) 268435460
       = Inl Assert_disk_size_range"
proof -
  have ds: "unat (81 :: u32) = unat (get_disk_size extension_node) + disk_size_bytes"
    by (simp add: get_disk_size_def extension_node_layout disk_size_bytes_def)
  have dm: "unat (81 :: u32) \<le> max_disk_size" by (simp add: max_disk_size_def)
  have mb: "unat (81 :: u32) \<le> 81" by simp
  have k: "unat (get_disk_size extension_node) = 77"
    by (simp add: get_disk_size_def extension_node_layout)
  have z: "number_of_children extension_node * sizeof_pointer = 8"
    by (simp add: extension_node_layout sizeof_pointer_def)
  from serialize_deserialize_round_trip [OF extension_node_valid ds mb, of stale_memory "[]"] dm
  obtain D where D: "deserialize_node_from_buffer stale_memory []
         (serialize_node_to_buffer (unat (81 :: u32)) extension_node 81 0) 81 = Inr ([D], 0)"
    "take 77 D = take 77 extension_node" "drop 77 D = replicate 8 0"
    unfolding k z by auto
  have "D = take 77 D @ drop 77 D" by simp
  then have e: "D = take 77 extension_node @ replicate 8 0" by (simp only: D(2) D(3))
  have len: "length (fst ([take 77 extension_node @ replicate 8 0], 0 :: nat)
               ! snd ([take 77 extension_node @ replicate 8 0], 0 :: nat))
       = length extension_node"
    by (simp add: extension_node_def)
  have ds': "unat (268435460 :: u32) = unat (get_disk_size (max_leaf 32)) + disk_size_bytes"
    by (simp add: max_leaf_32_layout max_disk_size_def disk_size_bytes_def)
  have dm': "max_disk_size < unat (268435460 :: u32)" by (simp add: max_disk_size_def)
  have mb': "unat (268435460 :: u32) \<le> 268435460" by simp
  from serialize_deserialize_round_trip
         [OF max_leaf_32_layout(9) ds' mb', of stale_memory "[]"] dm'
  have big: "deserialize_node_from_buffer stale_memory []
         (serialize_node_to_buffer (unat (268435460 :: u32)) (max_leaf 32) 268435460 0) 268435460
       = Inl Assert_disk_size_range"
    by blast
  from D(1) e have a: "deserialize_node_from_buffer stale_memory []
         (serialize_node_to_buffer (unat (81 :: u32)) extension_node 81 0) 81
       = Inr ([take 77 extension_node @ replicate 8 0], 0)"
    by simp
  show ?thesis
    using extension_node_valid ds mb dm a len max_leaf_32_layout(9) ds' mb' dm' big
    by (intro conjI)
qed

text \<open>
  Claim C1 as stated fails at the leaf \<open>max_leaf 32\<close>. It is well-formed, it passes the
  size checks of \<^verbatim>\<open>make_node\<close>, it has no child and so no \<^verbatim>\<open>next\<close> pointer that is
  not null, and its disk size is \<open>max_disk_size\<close>, which the spec allows. Serialised with
  the \<open>disk_size\<close> that covers the prefix and the whole node, \<open>max_disk_size + 4\<close>, it
  fails to deserialise at the assertion \<^verbatim>\<open>disk_size <= max_disk_size\<close>; serialised
  with \<open>disk_size = get_disk_size()\<close> into a buffer of that many bytes, the body is cut
  short by 4 bytes and the final assertion fires.
\<close>

theorem serialize_deserialize_round_trip_counterexample:
  "valid_node (max_leaf 32) \<and> number_of_children (max_leaf 32) = 0
   \<and> make_node_size 0 0 (word_of_nat KECCAK256_SIZE) (Some MAX_VALUE_LEN_OF_LEAF) 32
        = Inr (word_of_nat (length (max_leaf 32)))
   \<and> unat (get_disk_size (max_leaf 32)) = max_disk_size
   \<and> unat (get_disk_size (max_leaf 32)) = 268435456
   \<and> deserialize_node_from_buffer stale_memory []
         (serialize_node_to_buffer 268435460 (max_leaf 32) 268435460 0) 268435460
       = Inl Assert_disk_size_range
   \<and> deserialize_node_from_buffer stale_memory []
         (serialize_node_to_buffer 268435456 (max_leaf 32) 268435456 0) 268435456
       = Inl Assert_alloc_size_eq_mem_size"
proof -
  have mk: "make_node_size 0 0 (word_of_nat KECCAK256_SIZE) (Some MAX_VALUE_LEN_OF_LEAF) 32
        = Inr (word_of_nat (length (max_leaf 32)))"
    by (simp add: make_node_size_def MAX_VALUE_LEN_OF_LEAF_value popcount_0 calculate_node_size_def
          max_data_len_def max_size_def max_disk_size_def KECCAK256_SIZE_def sizeof_Node_def
          max_number_of_children_def max_leaf_32_layout)
  have g: "unat (get_disk_size (max_leaf 32)) = 268435456"
    by (simp add: max_leaf_32_layout max_disk_size_def)
  have ds: "unat (268435460 :: u32) = unat (get_disk_size (max_leaf 32)) + disk_size_bytes"
    by (simp add: g disk_size_bytes_def)
  have dm: "max_disk_size < unat (268435460 :: u32)" by (simp add: max_disk_size_def)
  have mb: "unat (268435460 :: u32) \<le> 268435460" by simp
  from round_trip_too_big [OF max_leaf_32_layout(9) ds dm mb, of stale_memory "[]"]
  have a: "deserialize_node_from_buffer stale_memory []
         (serialize_node_to_buffer 268435460 (max_leaf 32) 268435460 0) 268435460
       = Inl Assert_disk_size_range"
    by simp
  have big: "sizeof_Node + disk_size_bytes \<le> unat (268435456 :: u32)"
    by (simp add: sizeof_Node_def disk_size_bytes_def)
  have dm': "unat (268435456 :: u32) \<le> max_disk_size" by (simp add: max_disk_size_def)
  have mb': "unat (268435456 :: u32) \<le> 268435456" by simp
  from max_leaf_short_prefix [OF big dm' mb', of stale_memory "[]"]
  have b: "deserialize_node_from_buffer stale_memory []
         (serialize_node_to_buffer 268435456 (max_leaf 32) 268435456 0) 268435456
       = Inl Assert_alloc_size_eq_mem_size"
    by simp
  show ?thesis
    using max_leaf_32_layout(9) max_leaf_32_layout(2) mk max_leaf_32_layout(10) g a b
    by (intro conjI)
qed

lemma store_byte_other: "p \<noteq> q \<Longrightarrow> store_byte h q off v ! p = h ! p"
  by (simp add: store_byte_def)

text \<open>
  Claim C7: for a well-formed node at address \<open>p\<close>, \<^verbatim>\<open>copy_node\<close> returns a freshly
  allocated node of the same length that equals the node in every byte before
  \<^verbatim>\<open>next[]\<close> (header, per-child arrays, path, value, inline data, child data) and whose
  \<^verbatim>\<open>next[]\<close> region is all zero, whatever the allocated memory held before; the node
  at \<open>p\<close> is unchanged by the copy and by any later store into the copy.
\<close>

theorem copy_node_isolation:
  assumes p: "p < length h" and v: "valid_node (h ! p)"
  shows "\<exists>C. copy_node uninit h p = Inr (h @ [C], length h)
      \<and> length C = length (h ! p)
      \<and> take (next_data (h ! p)) C = take (next_data (h ! p)) (h ! p)
      \<and> drop (next_data (h ! p)) C
           = replicate (number_of_children (h ! p) * sizeof_pointer) 0
      \<and> (h @ [C]) ! p = h ! p
      \<and> (\<forall>off b. store_byte (h @ [C]) (length h) off b ! p = h ! p)"
proof -
  define N where "N = h ! p"
  define k where "k = next_data N"
  define z where "z = number_of_children N * sizeof_pointer"
  define C where "C = take k N @ replicate z 0"
  note f = valid_node_facts [OF v, folded N_def]
  note zl = zeroed_next_layout [OF v, folded N_def, folded k_def z_def, folded C_def]
  have kl: "k \<le> length N" using f(4) by (simp add: k_def)
  have a16: "sizeof_Node \<le> length N" using v by (simp add: valid_node_def N_def)
  define A where "A = replicate sizeof_Node 0 @ map uninit [sizeof_Node..<length N]"
  have lenA: "length A = length N" by (rule make_ok(2) [OF a16 f(7) A_def])
  have mk: "make uninit h (length N) = Inr (h @ [A], length h)"
    by (rule make_ok(1) [OF a16 f(7) A_def])
  have hp: "(h @ [X]) ! p = N" for X using p by (simp add: nth_append N_def)
  have cp: "copy_n N (length N) (h @ [A]) (length h) = Inr (h @ [N])"
    using copy_n_fresh [of "length N" N A h] by (simp add: lenA)
  have ms: "memset (h @ [N]) (length h) k 0 z = Inr (h @ [C])"
  proof (cases "z = 0")
    case True
    then have "C = N" using f(4) by (simp add: C_def k_def z_def)
    with True show ?thesis by (simp add: memset_none)
  next
    case False
    then have pos: "0 < z" by simp
    have le: "k + z \<le> length N" using f(4) by (simp add: k_def z_def)
    have "take k N @ replicate z 0 @ drop (k + z) N = C"
      using f(4) by (simp add: C_def k_def z_def)
    with memset_fresh [OF pos le, of h 0] show ?thesis by simp
  qed
  have "copy_node uninit h p = Inr (h @ [C], length h)"
    unfolding copy_node_def Let_def
    using p by (simp add: N_def [symmetric] f(6) mk hp cp ms k_def [symmetric] z_def [symmetric])
  moreover have "(h @ [C]) ! p = h ! p" using p by (simp add: nth_append)
  moreover have "\<forall>off b. store_byte (h @ [C]) (length h) off b ! p = h ! p"
    using p by (simp add: store_byte_def nth_append)
  ultimately show ?thesis
    using zl(1) zl(2) zl(3) unfolding N_def [symmetric] k_def [symmetric] z_def [symmetric]
    by blast
qed

theorem copy_node_isolation_witness:
  "(0 :: nat) < length [extension_node] \<and> valid_node ([extension_node] ! 0)
   \<and> copy_node stale_memory [extension_node] 0
       = Inr ([extension_node, take 77 extension_node @ replicate 8 0], 1)
   \<and> store_byte [extension_node, take 77 extension_node @ replicate 8 0] 1 50 255 ! 0
       = extension_node"
proof -
  have p: "(0 :: nat) < length [extension_node]" by simp
  have v: "valid_node ([extension_node] ! 0)" by (simp add: extension_node_valid)
  from copy_node_isolation [OF p v, of stale_memory]
  obtain C where C: "copy_node stale_memory [extension_node] 0 = Inr ([extension_node, C], 1)"
    "take 77 C = take 77 extension_node" "drop 77 C = replicate 8 0"
    "\<forall>off b. store_byte [extension_node, C] 1 off b ! 0 = extension_node"
    by (auto simp: extension_node_layout sizeof_pointer_def)
  have "C = take 77 C @ drop 77 C" by simp
  then have e: "C = take 77 extension_node @ replicate 8 0" by (simp only: C(2) C(3))
  from C(1) C(4) p v show ?thesis unfolding e by blast
qed

end
